theory Spec2Isabelle
  imports Main "HOL-Library.Word" "HOL-Library.Monad_Syntax" "HOL-Library.Sublist"
begin

section \<open>The vscript lexer (src/vscript/src/main.cpp)\<close>

text \<open>
  The repository is one file: a line-oriented lexer and the \<open>main\<close> that feeds it the
  lines of a source file. The embedding below follows \<open>Lexer::ParseLine\<close> block by
  block. The cursor, the columns and the row counter are \<open>uint32_t\<close> in the source and
  32-bit words here, so \<open>cursor--\<close> at 0 wraps as it does in C++.
\<close>

subsection \<open>Position, TokenType, Token\<close>

type_synonym uint32_t = "32 word"

record Position =
  Filename :: string
  Column :: uint32_t
  Row :: uint32_t

text \<open>Decimal rendering of an unsigned number, as \<open>operator<<\<close> of a stream prints it.\<close>

fun show_nat :: "nat \<Rightarrow> string" where
  "show_nat n =
     (if n < 10 then [''0123456789'' ! n]
      else show_nat (n div 10) @ [''0123456789'' ! (n mod 10)])"

declare show_nat.simps [simp del]

text \<open>\<open>operator<<(std::ostream&, const Position&)\<close>: the characters written.\<close>

definition show_Position :: "Position \<Rightarrow> string" where
  "show_Position p =
     Filename p @ '':'' @ show_nat (unat (Row p + 1)) @ '':'' @ show_nat (unat (Column p + 1))"

datatype Keyword = Fn | Return

definition s_Keywords :: "string \<rightharpoonup> Keyword" where
  "s_Keywords = map_of [(''fn'', Fn), (''return'', Return)]"

datatype TokenType =
    None_tok | Keyword | Ident | OCurly | CCurly | OParen | CParen | Colon | Semicolon
  | Arrow | String | Number | Plus_tok | Minus | Multiply | Divide | Equals

fun TokenTypeToString :: "TokenType \<Rightarrow> string" where
  "TokenTypeToString Keyword = ''Keyword''"
| "TokenTypeToString Ident = ''Ident''"
| "TokenTypeToString OCurly = ''OCurly''"
| "TokenTypeToString CCurly = ''CCurly''"
| "TokenTypeToString OParen = ''OParen''"
| "TokenTypeToString CParen = ''CParen''"
| "TokenTypeToString Colon = ''Colon''"
| "TokenTypeToString Semicolon = ''Semicolon''"
| "TokenTypeToString Arrow = ''Arrow''"
| "TokenTypeToString String = ''String''"
| "TokenTypeToString Number = ''Number''"
| "TokenTypeToString Plus_tok = ''Plus''"
| "TokenTypeToString Minus = ''Minus''"
| "TokenTypeToString Multiply = ''Multiply''"
| "TokenTypeToString Divide = ''Divide''"
| "TokenTypeToString Equals = ''Equals''"
| "TokenTypeToString None_tok = ''None''"

record Token =
  Type :: TokenType
  Pos :: Position
  Value :: string

abbreviation Tok :: "TokenType \<Rightarrow> Position \<Rightarrow> string \<Rightarrow> Token" where
  "Tok ty p v \<equiv> \<lparr>Type = ty, Pos = p, Value = v\<rparr>"

subsection \<open>Character classes of the C library\<close>

text \<open>
  \<open>std::isspace\<close>, \<open>std::isdigit\<close> and \<open>std::isalnum\<close> are not code of the repository;
  they are taken in the "C" locale, in which the program runs (it never calls
  \<open>setlocale\<close>): the six white-space characters, the ten digits, the 52 letters.
  No byte above 0x7F is in any of the three classes.
\<close>

definition isspace :: "char \<Rightarrow> bool" where
  "isspace c \<longleftrightarrow> c = CHR '' '' \<or> ((9::nat) \<le> of_char c \<and> of_char c \<le> (13::nat))"

definition isdigit :: "char \<Rightarrow> bool" where
  "isdigit c \<longleftrightarrow> (48::nat) \<le> of_char c \<and> of_char c \<le> (57::nat)"

definition isalnum :: "char \<Rightarrow> bool" where
  "isalnum c \<longleftrightarrow> isdigit c
     \<or> ((65::nat) \<le> of_char c \<and> of_char c \<le> (90::nat))
     \<or> ((97::nat) \<le> of_char c \<and> of_char c \<le> (122::nat))"

abbreviation dquote :: char where
  "dquote \<equiv> CHR 0x22"

subsection \<open>The lexer and the state of a running ParseLine\<close>

record Lexer =
  m_Tokens :: "Token list"
  m_Filename :: string
  m_Row :: uint32_t

text \<open>
  A call of \<open>ParseLine\<close> works on the members of the lexer, on its own local variables
  (\<open>cursor\<close>, \<open>pos\<close>, \<open>first\<close>, \<open>start\<close>, \<open>token\<close>) and on \<open>std::cout\<close>, to which
  \<open>Expected\<close> writes. \<open>line_reads\<close> is a history variable: the indices of \<open>line\<close> whose
  character the call has read so far, in order.
\<close>

record Run = Lexer +
  cursor :: uint32_t
  pos :: Position
  first :: char
  start :: uint32_t
  token :: Token
  cout :: string
  line_reads :: "nat list"

text \<open>\<open>Lexer(filename)\<close>, before any line is scanned and with nothing written yet.\<close>

definition Lexer_new :: "string \<Rightarrow> Run" where
  "Lexer_new filename =
     \<lparr>m_Tokens = [], m_Filename = filename, m_Row = 0,
      cursor = 0, pos = \<lparr>Filename = [], Column = 0, Row = 0\<rparr>, first = CHR 0x00, start = 0,
      token = Tok None_tok \<lparr>Filename = [], Column = 0, Row = 0\<rparr> [],
      cout = [], line_reads = []\<rparr>"

text \<open>
  \<open>line[i]\<close>: the character at \<open>i\<close>, and the terminating null character at
  \<open>i = line.size()\<close>. Beyond that the C++ read is undefined; the history variable
  records every index read, so that a theorem can say where reads happen.
\<close>

definition line_at :: "string \<Rightarrow> uint32_t \<Rightarrow> char" where
  "line_at line i = (if unat i < length line then line ! unat i else CHR 0x00)"

definition read_at :: "uint32_t \<Rightarrow> Run \<Rightarrow> Run" where
  "read_at i s = s\<lparr>line_reads := line_reads s @ [unat i]\<rparr>"

text \<open>\<open>std::string(line.data() + st, n)\<close>: the \<open>n\<close> characters copied, and their indices.\<close>

definition substr :: "string \<Rightarrow> uint32_t \<Rightarrow> uint32_t \<Rightarrow> string" where
  "substr line st n = take (unat n) (drop (unat st) line)"

definition read_range :: "uint32_t \<Rightarrow> uint32_t \<Rightarrow> Run \<Rightarrow> Run" where
  "read_range st n s = s\<lparr>line_reads := line_reads s @ [unat st ..< unat st + unat n]\<rparr>"

definition valid :: "string \<Rightarrow> Run \<Rightarrow> bool" where
  "valid line s \<longleftrightarrow> unat (cursor s) < length line"

definition currentPos :: "Run \<Rightarrow> Position" where
  "currentPos s = \<lparr>Filename = m_Filename s, Column = cursor s, Row = m_Row s\<rparr>"

text \<open>\<open>Lexer::Expected\<close> (lines 214-217).\<close>

definition Expected :: "TokenType \<Rightarrow> string \<Rightarrow> Position \<Rightarrow> Run \<Rightarrow> Run" where
  "Expected type msg p s =
     s\<lparr>cout := cout s @ show_Position p @ '', Expected '' @ TokenTypeToString type @ '', '' @ msg\<rparr>"

subsection \<open>The blocks of the loop body\<close>

text \<open>Lines 115-118: the locals of one iteration.\<close>

definition enter_body :: "string \<Rightarrow> Run \<Rightarrow> Run" where
  "enter_body line s =
     (read_at (cursor s) s)
       \<lparr>pos := currentPos s, first := line_at line (cursor s), start := 0,
        token := Tok None_tok (currentPos s) []\<rparr>"

text \<open>Lines 120-125: one white-space character is stepped over.\<close>

definition skip_space :: "string \<Rightarrow> Run \<Rightarrow> Run" where
  "skip_space line s =
     (if isspace (first s) then
        (let s = s\<lparr>cursor := cursor s + 1\<rparr>;
             s = (read_at (cursor s) s)\<lparr>first := line_at line (cursor s)\<rparr>;
             s = s\<lparr>pos := currentPos s\<rparr>
         in s\<lparr>token := (token s)\<lparr>Pos := pos s\<rparr>\<rparr>)
      else s)"

text \<open>Lines 127-134.\<close>

definition braces :: "Run \<Rightarrow> Run" where
  "braces s =
     (if first s = CHR ''{'' then s\<lparr>token := Tok OCurly (pos s) [first s]\<rparr>
      else if first s = CHR ''}'' then s\<lparr>token := Tok CCurly (pos s) [first s]\<rparr>
      else if first s = CHR ''('' then s\<lparr>token := Tok OParen (pos s) [first s]\<rparr>
      else if first s = CHR '')'' then s\<lparr>token := Tok CParen (pos s) [first s]\<rparr>
      else s)"

text \<open>Lines 136-139.\<close>

definition separators :: "Run \<Rightarrow> Run" where
  "separators s =
     (if first s = CHR '';'' then s\<lparr>token := Tok Semicolon (pos s) [first s]\<rparr>
      else if first s = CHR '':'' then s\<lparr>token := Tok Colon (pos s) [first s]\<rparr>
      else s)"

text \<open>Lines 141-163. The branch of \<open>-\<close> moves the cursor to look at the next character.\<close>

definition operators :: "string \<Rightarrow> Run \<Rightarrow> Run" where
  "operators line s =
     (if first s = CHR ''+'' then s\<lparr>token := Tok Plus_tok (pos s) [first s]\<rparr>
      else if first s = CHR ''-'' then
        (let s = s\<lparr>start := cursor s\<rparr>;
             s = s\<lparr>cursor := cursor s + 1\<rparr>;
             s = read_at (cursor s) s
         in if line_at line (cursor s) = CHR ''>''
            then (read_range (start s) 2 s)\<lparr>token := Tok Arrow (pos s) (substr line (start s) 2)\<rparr>
            else s\<lparr>token := Tok Minus (pos s) [first s]\<rparr>)
      else if first s = CHR ''*'' then s\<lparr>token := Tok Multiply (pos s) [first s]\<rparr>
      else if first s = CHR ''/'' then s\<lparr>token := Tok Divide (pos s) [first s]\<rparr>
      else if first s = CHR ''='' then s\<lparr>token := Tok Equals (pos s) [first s]\<rparr>
      else s)"

text \<open>
  Lines 168-169 and 194-195, the same loop twice:
  \<open>while (valid() && std::isalnum(line[cursor]) || line[cursor] == '_') cursor++;\<close>
  The condition is \<open>(valid() && isalnum(line[cursor])) || line[cursor] == '_'\<close>: the second
  read happens whenever the first disjunct is false, also when \<open>valid()\<close> is.
\<close>

partial_function (option) scan_word :: "string \<Rightarrow> Run \<Rightarrow> Run option" where
  "scan_word line s =
     (if valid line s \<and> isalnum (line_at line (cursor s))
      then scan_word line ((read_at (cursor s) s)\<lparr>cursor := cursor s + 1\<rparr>)
      else (let s = (if valid line s then read_at (cursor s) s else s);
                s = read_at (cursor s) s
            in if line_at line (cursor s) = CHR ''_''
               then scan_word line (s\<lparr>cursor := cursor s + 1\<rparr>)
               else Some s))"

text \<open>Lines 184-185: \<open>while (valid() && std::isdigit(line[cursor])) cursor++;\<close>\<close>

partial_function (option) scan_digits :: "string \<Rightarrow> Run \<Rightarrow> Run option" where
  "scan_digits line s =
     (if valid line s
      then (let s = read_at (cursor s) s
            in if isdigit (line_at line (cursor s))
               then scan_digits line (s\<lparr>cursor := cursor s + 1\<rparr>)
               else Some s)
      else Some s)"

text \<open>Lines 165-179.\<close>

definition string_literal :: "string \<Rightarrow> Run \<Rightarrow> Run option" where
  "string_literal line s =
     (if first s = dquote then
        do {
          s \<leftarrow> scan_word line (s\<lparr>start := cursor s\<rparr>);
          let s = read_at (cursor s) s;
          let s = (if line_at line (cursor s) \<noteq> dquote
                   then Expected String ''unterminated string literal'' (currentPos s) s
                   else s);
          let s = (read_range (start s) (cursor s - start s) s)
                    \<lparr>token := Tok String (pos s) (substr line (start s) (cursor s - start s))\<rparr>;
          Some (s\<lparr>cursor := cursor s - 1\<rparr>)
        }
      else Some s)"

text \<open>Lines 181-205.\<close>

definition number_or_word :: "string \<Rightarrow> Run \<Rightarrow> Run option" where
  "number_or_word line s =
     (if isdigit (first s) then
        do {
          s \<leftarrow> scan_digits line (s\<lparr>start := cursor s\<rparr>);
          let s = (read_range (start s) (cursor s - start s) s)
                    \<lparr>token := Tok Number (pos s) (substr line (start s) (cursor s - start s))\<rparr>;
          Some (s\<lparr>cursor := cursor s - 1\<rparr>)
        }
      else if isalnum (first s) then
        do {
          s \<leftarrow> scan_word line (s\<lparr>start := cursor s\<rparr>);
          let s = read_range (start s) (cursor s - start s) s;
          let value = substr line (start s) (cursor s - start s);
          let s = (if s_Keywords value \<noteq> None
                   then s\<lparr>token := Tok Keyword (pos s) value\<rparr>
                   else s\<lparr>token := Tok Ident (pos s) value\<rparr>);
          Some (s\<lparr>cursor := cursor s - 1\<rparr>)
        }
      else Some s)"

text \<open>Lines 207-208: \<open>m_Tokens.push_back(token); cursor++;\<close>, whatever the token is.\<close>

definition push_back_token :: "Run \<Rightarrow> Run" where
  "push_back_token s = s\<lparr>m_Tokens := m_Tokens s @ [token s], cursor := cursor s + 1\<rparr>"

subsection \<open>ParseLine and the driver\<close>

text \<open>One iteration of the \<open>while\<close> of line 113.\<close>

definition ParseLine_step :: "string \<Rightarrow> Run \<Rightarrow> Run option" where
  "ParseLine_step line s =
     do {
       s \<leftarrow> string_literal line
              (operators line (separators (braces (skip_space line (enter_body line s)))));
       s \<leftarrow> number_or_word line s;
       Some (push_back_token s)
     }"

text \<open>
  The \<open>while\<close> itself. The result is \<open>None\<close> exactly when the loop never leaves, in which
  case the C++ call does not return either.
\<close>

partial_function (option) ParseLine_loop :: "string \<Rightarrow> Run \<Rightarrow> Run option" where
  "ParseLine_loop line s =
     (if unat (cursor s) < length line
      then do { s' \<leftarrow> ParseLine_step line s; ParseLine_loop line s' }
      else Some s)"

definition ParseLine :: "string \<Rightarrow> Run \<Rightarrow> Run option" where
  "ParseLine line s =
     do {
       s \<leftarrow> ParseLine_loop line (s\<lparr>cursor := 0\<rparr>);
       Some (s\<lparr>m_Row := m_Row s + 1\<rparr>)
     }"

text \<open>\<open>main\<close>, lines 246-248: every line of the file goes through \<open>ParseLine\<close>, in order.\<close>

fun ParseLines :: "string list \<Rightarrow> Run \<Rightarrow> Run option" where
  "ParseLines [] s = Some s"
| "ParseLines (line # rest) s = do { s' \<leftarrow> ParseLine line s; ParseLines rest s' }"

subsection \<open>Notions used in the statements and proofs\<close>

text \<open>
  \<open>advanced s s'\<close>: \<open>s'\<close> differs from \<open>s\<close> in the cursor and in the history of reads
  only, which is all the two inner loops change. \<open>no_rule c\<close>: the character \<open>c\<close> starts
  no lexeme, that is, none of the comparisons and class tests of lines 127-205 holds
  for it. \<open>column_of line s\<close> is the cursor after the white-space block of an iteration
  entered in state \<open>s\<close>, and \<open>before_literals line s\<close> the state after line 163.
  \<open>without_reads s\<close> is the state \<open>s\<close> with the history of reads erased: two runs with
  the same \<open>without_reads\<close> have the same tokens, row, cursor, locals and output.
  \<open>position_in_line line t\<close>: the column of token \<open>t\<close> is an index into \<open>line\<close>, or it
  is the length of \<open>line\<close>, and then \<open>line\<close> ends with a white-space character and \<open>t\<close>
  is a None token with an empty value. \<open>decimal_value\<close> reads a decimal numeral back.
  \<open>long_line\<close> is a line of exactly \<open>2^32\<close> characters.
  \<open>ParseLine_iterations n line s\<close> is the state at the head of the \<open>while\<close> of line 113
  after \<open>n\<close> iterations started in state \<open>s\<close>, if the loop makes that many; it is
  the way to speak of the tokens of a call that has not returned, or never will.
\<close>

definition advanced :: "Run \<Rightarrow> Run \<Rightarrow> bool" where
  "advanced s s' \<longleftrightarrow>
     m_Tokens s' = m_Tokens s \<and> m_Filename s' = m_Filename s \<and> m_Row s' = m_Row s \<and>
     pos s' = pos s \<and> first s' = first s \<and> start s' = start s \<and> token s' = token s \<and>
     cout s' = cout s \<and> (\<exists>rs. line_reads s' = line_reads s @ rs)"

abbreviation column_of :: "string \<Rightarrow> Run \<Rightarrow> uint32_t" where
  "column_of line s \<equiv> (if isspace (line_at line (cursor s)) then cursor s + 1 else cursor s)"

abbreviation before_literals :: "string \<Rightarrow> Run \<Rightarrow> Run" where
  "before_literals line s \<equiv>
     operators line (separators (braces (skip_space line (enter_body line s))))"

definition no_rule :: "char \<Rightarrow> bool" where
  "no_rule c \<longleftrightarrow> c \<notin> set ''{}();:+-*/='' \<and> c \<noteq> dquote \<and> \<not> isdigit c \<and> \<not> isalnum c"

definition without_reads :: "Run \<Rightarrow> Run" where
  "without_reads s = s\<lparr>line_reads := []\<rparr>"

definition position_in_line :: "string \<Rightarrow> Token \<Rightarrow> bool" where
  "position_in_line line t \<longleftrightarrow>
     unat (Column (Pos t)) < length line \<or>
     (unat (Column (Pos t)) = length line \<and> line \<noteq> [] \<and> isspace (last line) \<and>
      Type t = None_tok \<and> Value t = [])"

definition decimal_value :: "string \<Rightarrow> nat" where
  "decimal_value ds = foldl (\<lambda>n d. 10 * n + (of_char d - 48)) 0 ds"

fun ParseLine_iterations :: "nat \<Rightarrow> string \<Rightarrow> Run \<Rightarrow> Run option" where
  "ParseLine_iterations 0 line s = Some s"
| "ParseLine_iterations (Suc n) line s =
     (if unat (cursor s) < length line
      then do { s' \<leftarrow> ParseLine_step line s; ParseLine_iterations n line s' }
      else None)"

abbreviation long_line :: string where
  "long_line \<equiv> ''aa '' @ replicate (2 ^ 32 - 3) (CHR ''a'')"

section \<open>Lemmas about the blocks\<close>

lemmas ParseLine_defs = ParseLine_def ParseLine_step_def enter_body_def skip_space_def braces_def
  separators_def operators_def string_literal_def number_or_word_def push_back_token_def
  read_at_def read_range_def line_at_def substr_def valid_def currentPos_def Expected_def
  isspace_def isdigit_def isalnum_def s_Keywords_def

lemma scan_word_advanced:
  assumes "scan_word line s = Some s'"
  shows "advanced s s'"
proof (rule scan_word.raw_induct [where P = "\<lambda>line s s'. advanced s s'", OF _ assms])
  fix f line s y
  assume IH: "\<And>line s y. f line s = Some y \<Longrightarrow> advanced s y"
    and eq: "(if valid line s \<and> isalnum (line_at line (cursor s))
      then f line ((read_at (cursor s) s)\<lparr>cursor := cursor s + 1\<rparr>)
      else (let s = (if valid line s then read_at (cursor s) s else s);
                s = read_at (cursor s) s
            in if line_at line (cursor s) = CHR ''_''
               then f line (s\<lparr>cursor := cursor s + 1\<rparr>)
               else Some s)) = Some y"
  show "advanced s y"
    using eq
    by (auto simp: Let_def read_at_def advanced_def split: if_splits dest!: IH)
qed

lemma scan_digits_advanced:
  assumes "scan_digits line s = Some s'"
  shows "advanced s s'"
proof (rule scan_digits.raw_induct [where P = "\<lambda>line s s'. advanced s s'", OF _ assms])
  fix f line s y
  assume IH: "\<And>line s y. f line s = Some y \<Longrightarrow> advanced s y"
    and eq: "(if valid line s
      then (let s = read_at (cursor s) s
            in if isdigit (line_at line (cursor s))
               then f line (s\<lparr>cursor := cursor s + 1\<rparr>)
               else Some s)
      else Some s) = Some y"
  show "advanced s y"
    using eq
    by (auto simp: Let_def read_at_def advanced_def split: if_splits dest!: IH)
qed

lemma unat_cursor_Suc:
  "unat (c :: 32 word) < n \<Longrightarrow> n < 2 ^ 32 \<Longrightarrow> unat (c + 1) = Suc (unat c)"
  by (simp add: unat_word_ariths)

lemma line_at_nonnull_valid: "line_at line c \<noteq> CHR 0x00 \<Longrightarrow> unat c < length line"
  by (simp add: line_at_def split: if_splits)

lemma scan_word_total:
  assumes len: "length line < 2 ^ 32"
  shows "unat (cursor s) \<le> length line \<Longrightarrow>
     \<exists>s'. scan_word line s = Some s' \<and> unat (cursor s) \<le> unat (cursor s') \<and>
          unat (cursor s') \<le> length line \<and>
          (\<exists>rs. line_reads s' = line_reads s @ rs \<and> (\<forall>i\<in>set rs. i \<le> length line))"
proof (induction "length line - unat (cursor s)" arbitrary: s rule: less_induct)
  case less
  let ?c = "cursor s"
  show ?case
  proof (cases "valid line s \<and> (isalnum (line_at line ?c) \<or> line_at line ?c = CHR ''_'')")
    case True
    then have v: "unat ?c < length line" by (simp add: valid_def)
    have suc: "unat (?c + 1) = Suc (unat ?c)" using v len by (rule unat_cursor_Suc)
    define rs0 where "rs0 = (if isalnum (line_at line ?c) then [unat ?c] else [unat ?c, unat ?c])"
    define t where "t = s\<lparr>line_reads := line_reads s @ rs0, cursor := ?c + 1\<rparr>"
    have unfold: "scan_word line s = scan_word line t"
      using True by (subst scan_word.simps) (auto simp: t_def rs0_def read_at_def Let_def)
    have "length line - unat (cursor t) < length line - unat ?c"
      using v suc by (simp add: t_def)
    moreover have "unat (cursor t) \<le> length line" using v suc by (simp add: t_def)
    ultimately obtain s' rs where
      s': "scan_word line t = Some s'" "unat (cursor t) \<le> unat (cursor s')"
        "unat (cursor s') \<le> length line" "line_reads s' = line_reads t @ rs"
        "\<forall>i\<in>set rs. i \<le> length line"
      using less.hyps [of t] by blast
    have "line_reads s' = line_reads s @ (rs0 @ rs)" using s'(4) by (simp add: t_def)
    moreover have "\<forall>i\<in>set (rs0 @ rs). i \<le> length line"
      using s'(5) v by (auto simp: rs0_def)
    moreover have "unat ?c \<le> unat (cursor s')" using s'(2) suc by (simp add: t_def)
    ultimately show ?thesis using s'(1,3) unfold by metis
  next
    case False
    define rs0 where "rs0 = (if valid line s then [unat ?c, unat ?c] else [unat ?c])"
    have us: "line_at line ?c \<noteq> CHR ''_''"
      using False by (auto simp: valid_def line_at_def)
    have "scan_word line s = Some (s\<lparr>line_reads := line_reads s @ rs0\<rparr>)"
      using False us by (subst scan_word.simps) (auto simp: rs0_def read_at_def Let_def)
    moreover have "\<forall>i\<in>set rs0. i \<le> length line" using less.prems by (auto simp: rs0_def)
    ultimately show ?thesis using less.prems by auto
  qed
qed

lemma scan_digits_total:
  assumes len: "length line < 2 ^ 32"
  shows "unat (cursor s) \<le> length line \<Longrightarrow>
     \<exists>s'. scan_digits line s = Some s' \<and> unat (cursor s) \<le> unat (cursor s') \<and>
          unat (cursor s') \<le> length line \<and>
          (\<exists>rs. line_reads s' = line_reads s @ rs \<and> (\<forall>i\<in>set rs. i \<le> length line))"
proof (induction "length line - unat (cursor s)" arbitrary: s rule: less_induct)
  case less
  let ?c = "cursor s"
  show ?case
  proof (cases "valid line s \<and> isdigit (line_at line ?c)")
    case True
    then have v: "unat ?c < length line" by (simp add: valid_def)
    have suc: "unat (?c + 1) = Suc (unat ?c)" using v len by (rule unat_cursor_Suc)
    define t where "t = s\<lparr>line_reads := line_reads s @ [unat ?c], cursor := ?c + 1\<rparr>"
    have unfold: "scan_digits line s = scan_digits line t"
      using True by (subst scan_digits.simps) (auto simp: t_def read_at_def Let_def)
    have "length line - unat (cursor t) < length line - unat ?c"
      using v suc by (simp add: t_def)
    moreover have "unat (cursor t) \<le> length line" using v suc by (simp add: t_def)
    ultimately obtain s' rs where
      s': "scan_digits line t = Some s'" "unat (cursor t) \<le> unat (cursor s')"
        "unat (cursor s') \<le> length line" "line_reads s' = line_reads t @ rs"
        "\<forall>i\<in>set rs. i \<le> length line"
      using less.hyps [of t] by blast
    have "line_reads s' = line_reads s @ (unat ?c # rs)" using s'(4) by (simp add: t_def)
    moreover have "\<forall>i\<in>set (unat ?c # rs). i \<le> length line"
      using s'(5) v by auto
    moreover have "unat ?c \<le> unat (cursor s')" using s'(2) suc by (simp add: t_def)
    ultimately show ?thesis using s'(1,3) unfold by metis
  next
    case False
    define rs0 where "rs0 = (if valid line s then [unat ?c] else [])"
    have "scan_digits line s = Some (s\<lparr>line_reads := line_reads s @ rs0\<rparr>)"
      using False by (subst scan_digits.simps) (auto simp: rs0_def read_at_def Let_def)
    moreover have "\<forall>i\<in>set rs0. i \<le> length line" using less.prems by (auto simp: rs0_def)
    ultimately show ?thesis using less.prems by auto
  qed
qed

lemma skip_space_enter_body:
  "skip_space line (enter_body line s) =
     s\<lparr>cursor := column_of line s,
       pos := \<lparr>Filename = m_Filename s, Column = column_of line s, Row = m_Row s\<rparr>,
       first := line_at line (column_of line s), start := 0,
       token := Tok None_tok \<lparr>Filename = m_Filename s, Column = column_of line s, Row = m_Row s\<rparr> [],
       line_reads := line_reads s @
          (if isspace (line_at line (cursor s)) then [unat (cursor s), unat (cursor s + 1)]
           else [unat (cursor s)])\<rparr>"
  by (simp add: skip_space_def enter_body_def read_at_def currentPos_def Let_def)

lemma braces_keeps:
  "m_Tokens (braces t) = m_Tokens t \<and> m_Filename (braces t) = m_Filename t \<and>
   m_Row (braces t) = m_Row t \<and> cout (braces t) = cout t \<and> pos (braces t) = pos t \<and>
   first (braces t) = first t \<and> cursor (braces t) = cursor t \<and>
   line_reads (braces t) = line_reads t \<and>
   (Pos (token t) = pos t \<longrightarrow> Pos (token (braces t)) = pos t)"
  by (simp add: braces_def)

lemma separators_keeps:
  "m_Tokens (separators t) = m_Tokens t \<and> m_Filename (separators t) = m_Filename t \<and>
   m_Row (separators t) = m_Row t \<and> cout (separators t) = cout t \<and> pos (separators t) = pos t \<and>
   first (separators t) = first t \<and> cursor (separators t) = cursor t \<and>
   line_reads (separators t) = line_reads t \<and>
   (Pos (token t) = pos t \<longrightarrow> Pos (token (separators t)) = pos t)"
  by (simp add: separators_def)

lemma operators_keeps:
  "m_Tokens (operators line t) = m_Tokens t \<and> m_Filename (operators line t) = m_Filename t \<and>
   m_Row (operators line t) = m_Row t \<and> cout (operators line t) = cout t \<and>
   pos (operators line t) = pos t \<and> first (operators line t) = first t \<and>
   cursor (operators line t) = (if first t = CHR ''-'' then cursor t + 1 else cursor t) \<and>
   (Pos (token t) = pos t \<longrightarrow> Pos (token (operators line t)) = pos t)"
  by (simp add: operators_def Let_def read_at_def read_range_def)

lemma operators_reads:
  "line_reads (operators line t) = line_reads t @
     (if first t = CHR ''-'' then
        (if line_at line (cursor t + 1) = CHR ''>''
         then [unat (cursor t + 1), unat (cursor t), Suc (unat (cursor t))]
         else [unat (cursor t + 1)])
      else [])"
  by (simp add: operators_def Let_def read_at_def read_range_def upt_rec)

lemma before_literals_keeps:
  "m_Tokens (before_literals line s) = m_Tokens s \<and>
   m_Filename (before_literals line s) = m_Filename s \<and>
   m_Row (before_literals line s) = m_Row s \<and>
   cout (before_literals line s) = cout s \<and>
   pos (before_literals line s) = \<lparr>Filename = m_Filename s, Column = column_of line s, Row = m_Row s\<rparr> \<and>
   Pos (token (before_literals line s)) = pos (before_literals line s) \<and>
   first (before_literals line s) = line_at line (column_of line s) \<and>
   cursor (before_literals line s) =
     (if line_at line (column_of line s) = CHR ''-'' then column_of line s + 1 else column_of line s)"
proof -
  define s1 where "s1 = skip_space line (enter_body line s)"
  define s2 where "s2 = braces s1"
  define s3 where "s3 = separators s2"
  have f1: "m_Tokens s1 = m_Tokens s" "m_Filename s1 = m_Filename s" "m_Row s1 = m_Row s"
    "cout s1 = cout s" "first s1 = line_at line (column_of line s)"
    "cursor s1 = column_of line s" "Pos (token s1) = pos s1"
    "pos s1 = \<lparr>Filename = m_Filename s, Column = column_of line s, Row = m_Row s\<rparr>"
    unfolding s1_def skip_space_enter_body by simp_all
  have f2: "m_Tokens s2 = m_Tokens s" "m_Filename s2 = m_Filename s" "m_Row s2 = m_Row s"
    "cout s2 = cout s" "first s2 = line_at line (column_of line s)"
    "cursor s2 = column_of line s" "Pos (token s2) = pos s2"
    "pos s2 = \<lparr>Filename = m_Filename s, Column = column_of line s, Row = m_Row s\<rparr>"
    using f1 braces_keeps [of s1] unfolding s2_def by simp_all
  have f3: "m_Tokens s3 = m_Tokens s" "m_Filename s3 = m_Filename s" "m_Row s3 = m_Row s"
    "cout s3 = cout s" "first s3 = line_at line (column_of line s)"
    "cursor s3 = column_of line s" "Pos (token s3) = pos s3"
    "pos s3 = \<lparr>Filename = m_Filename s, Column = column_of line s, Row = m_Row s\<rparr>"
    using f2 separators_keeps [of s2] unfolding s3_def by simp_all
  have "before_literals line s = operators line s3"
    by (simp add: s3_def s2_def s1_def)
  then show ?thesis
    using f3 operators_keeps [of line s3] by simp
qed

lemma unat_cursor_succ_le: "unat (c + 1 :: 32 word) \<le> Suc (unat c)"
  by (simp add: unat_word_ariths)

lemma before_literals_reads:
  assumes "unat (cursor s) < length line"
  shows "\<exists>rs. line_reads (before_literals line s) = line_reads s @ rs \<and>
              (\<forall>i\<in>set rs. i \<le> length line)"
proof -
  define s1 where "s1 = skip_space line (enter_body line s)"
  define s3 where "s3 = separators (braces s1)"
  define rs1 where "rs1 = (if isspace (line_at line (cursor s))
     then [unat (cursor s), unat (cursor s + 1)] else [unat (cursor s)])"
  define rs2 where "rs2 = (if first s3 = CHR ''-'' then
        (if line_at line (cursor s3 + 1) = CHR ''>''
         then [unat (cursor s3 + 1), unat (cursor s3), Suc (unat (cursor s3))]
         else [unat (cursor s3 + 1)])
      else [])"
  have r1: "line_reads s1 = line_reads s @ rs1" "first s1 = line_at line (cursor s1)"
    unfolding s1_def skip_space_enter_body rs1_def by simp_all
  have r3: "line_reads s3 = line_reads s @ rs1" "first s3 = line_at line (cursor s3)"
    using r1 braces_keeps [of s1] separators_keeps [of "braces s1"] unfolding s3_def by simp_all
  have "unat (cursor s + 1) \<le> length line"
    using assms unat_cursor_succ_le [of "cursor s"] by simp
  then have b1: "\<forall>i\<in>set rs1. i \<le> length line"
    using assms by (simp add: rs1_def)
  have b2: "\<forall>i\<in>set rs2. i \<le> length line"
  proof (cases "first s3 = CHR ''-''")
    case True
    then have "line_at line (cursor s3) \<noteq> CHR 0x00" using r3(2) by simp
    then have "unat (cursor s3) < length line" by (rule line_at_nonnull_valid)
    then show ?thesis
      using unat_cursor_succ_le [of "cursor s3"] by (auto simp: rs2_def)
  next
    case False
    then show ?thesis by (simp add: rs2_def)
  qed
  have "before_literals line s = operators line s3"
    by (simp add: s3_def s1_def)
  then have "line_reads (before_literals line s) = line_reads s @ (rs1 @ rs2)"
    using r3(1) operators_reads [of line s3] by (simp add: rs2_def)
  then show ?thesis using b1 b2 by (metis Un_iff set_append)
qed

lemma string_literal_at_quote:
  assumes "first t = dquote" and "line_at line (cursor t) = dquote"
  shows "string_literal line t =
     Some (t\<lparr>start := cursor t,
             line_reads := line_reads t @ [unat (cursor t), unat (cursor t), unat (cursor t)],
             token := Tok String (pos t) [],
             cursor := cursor t - 1\<rparr>)"
proof -
  have v: "valid line t"
    using assms(2) line_at_nonnull_valid [of line "cursor t"] by (simp add: valid_def)
  have "scan_word line (t\<lparr>start := cursor t\<rparr>) =
      Some (t\<lparr>start := cursor t, line_reads := line_reads t @ [unat (cursor t), unat (cursor t)]\<rparr>)"
    using assms(2) v
    by (subst scan_word.simps) (simp add: isalnum_def isdigit_def valid_def read_at_def Let_def)
  then show ?thesis
    using assms by (simp add: string_literal_def read_at_def read_range_def substr_def)
qed

lemma string_literal_other: "first t \<noteq> dquote \<Longrightarrow> string_literal line t = Some t"
  by (simp add: string_literal_def)

lemma not_alnum_dquote: "\<not> isdigit dquote" "\<not> isalnum dquote"
  by (simp_all add: isalnum_def isdigit_def)

lemma number_or_word_other:
  "\<not> isdigit (first t) \<Longrightarrow> \<not> isalnum (first t) \<Longrightarrow> number_or_word line t = Some t"
  by (simp add: number_or_word_def)

lemma number_or_word_keeps:
  assumes "number_or_word line t = Some t'"
  shows "m_Tokens t' = m_Tokens t \<and> m_Filename t' = m_Filename t \<and> m_Row t' = m_Row t \<and>
     cout t' = cout t \<and> pos t' = pos t \<and> first t' = first t \<and>
     (Pos (token t) = pos t \<longrightarrow> Pos (token t') = pos t)"
proof (cases "isdigit (first t)")
  case True
  then obtain u where u: "scan_digits line (t\<lparr>start := cursor t\<rparr>) = Some u"
    using assms by (auto simp: number_or_word_def split: bind_splits)
  from scan_digits_advanced [OF u] assms True u show ?thesis
    by (auto simp: number_or_word_def advanced_def read_range_def)
next
  case nd: False
  show ?thesis
  proof (cases "isalnum (first t)")
    case True
    then obtain u where u: "scan_word line (t\<lparr>start := cursor t\<rparr>) = Some u"
      using assms nd by (auto simp: number_or_word_def split: bind_splits)
    from scan_word_advanced [OF u] assms True nd u show ?thesis
      by (auto simp: number_or_word_def advanced_def read_range_def Let_def split: if_splits)
  next
    case False
    then show ?thesis using assms nd by (simp add: number_or_word_def)
  qed
qed

lemma unat_cursor_diff: "unat (a :: 32 word) \<le> unat b \<Longrightarrow> unat (b - a) = unat b - unat a"
  by (simp add: unat_sub word_le_nat_alt)

lemma number_or_word_total:
  assumes len: "length line < 2 ^ 32" and c: "unat (cursor t) \<le> length line"
  shows "\<exists>t'. number_or_word line t = Some t' \<and>
     (\<exists>rs. line_reads t' = line_reads t @ rs \<and> (\<forall>i\<in>set rs. i \<le> length line))"
proof (cases "isdigit (first t)")
  case True
  obtain u rs where u: "scan_digits line (t\<lparr>start := cursor t\<rparr>) = Some u"
    "unat (cursor t) \<le> unat (cursor u)" "unat (cursor u) \<le> length line"
    "line_reads u = line_reads t @ rs" "\<forall>i\<in>set rs. i \<le> length line"
    using scan_digits_total [OF len, of "t\<lparr>start := cursor t\<rparr>"] c by auto
  have st: "start u = cursor t" using scan_digits_advanced [OF u(1)] by (simp add: advanced_def)
  have d: "unat (cursor u - start u) = unat (cursor u) - unat (cursor t)"
    using u(2) st by (simp add: unat_cursor_diff)
  have "\<forall>i\<in>set (rs @ [unat (start u) ..< unat (start u) + unat (cursor u - start u)]). i \<le> length line"
    using u(2,3,5) st d by auto
  then show ?thesis
    using True u(1,4) by (simp add: number_or_word_def read_range_def)
next
  case nd: False
  show ?thesis
  proof (cases "isalnum (first t)")
    case True
    obtain u rs where u: "scan_word line (t\<lparr>start := cursor t\<rparr>) = Some u"
      "unat (cursor t) \<le> unat (cursor u)" "unat (cursor u) \<le> length line"
      "line_reads u = line_reads t @ rs" "\<forall>i\<in>set rs. i \<le> length line"
      using scan_word_total [OF len, of "t\<lparr>start := cursor t\<rparr>"] c by auto
    have st: "start u = cursor t" using scan_word_advanced [OF u(1)] by (simp add: advanced_def)
    have d: "unat (cursor u - start u) = unat (cursor u) - unat (cursor t)"
      using u(2) st by (simp add: unat_cursor_diff)
    have "\<forall>i\<in>set (rs @ [unat (start u) ..< unat (start u) + unat (cursor u - start u)]). i \<le> length line"
      using u(2,3,5) st d by auto
    then show ?thesis
      using True nd u(1,4) by (simp add: number_or_word_def read_range_def Let_def)
  next
    case False
    then show ?thesis using nd by (simp add: number_or_word_def)
  qed
qed

lemma not_space_dquote: "\<not> isspace dquote"
  by (simp add: isspace_def)

lemma step_at_quote:
  assumes "line_at line (column_of line s) = dquote"
  shows "\<exists>s'. ParseLine_step line s = Some s' \<and> cursor s' = column_of line s \<and>
     first s' = dquote \<and>
     token s' = Tok String \<lparr>Filename = m_Filename s, Column = column_of line s, Row = m_Row s\<rparr> [] \<and>
     m_Tokens s' = m_Tokens s @
        [Tok String \<lparr>Filename = m_Filename s, Column = column_of line s, Row = m_Row s\<rparr> []] \<and>
     m_Filename s' = m_Filename s \<and> m_Row s' = m_Row s \<and> cout s' = cout s \<and>
     line_reads s' = line_reads (before_literals line s) @
        [unat (column_of line s), unat (column_of line s), unat (column_of line s)]"
proof -
  define t where "t = before_literals line s"
  note k = before_literals_keeps [of line s, folded t_def]
  have ft: "first t = dquote" and ct: "cursor t = column_of line s"
    using k assms by simp_all
  have la: "line_at line (cursor t) = dquote" using ct assms by simp
  define t1 where "t1 = t\<lparr>start := cursor t,
             line_reads := line_reads t @ [unat (cursor t), unat (cursor t), unat (cursor t)],
             token := Tok String (pos t) [],
             cursor := cursor t - 1\<rparr>"
  have s1: "string_literal line t = Some t1"
    unfolding t1_def using ft la by (rule string_literal_at_quote)
  have "first t1 = dquote" using ft by (simp add: t1_def)
  then have s2: "number_or_word line t1 = Some t1"
    by (simp add: number_or_word_other not_alnum_dquote)
  have "ParseLine_step line s = Some (push_back_token t1)"
    using s1 s2 by (simp add: ParseLine_step_def t_def)
  moreover have "cursor (push_back_token t1) = column_of line s"
    using ct by (simp add: push_back_token_def t1_def)
  ultimately show ?thesis
    using k ct ft by (simp add: push_back_token_def t1_def t_def)
qed

lemma step_partial:
  assumes "ParseLine_step line s = Some s'"
  shows "m_Tokens s' = m_Tokens s @ [token s'] \<and> m_Filename s' = m_Filename s \<and>
     m_Row s' = m_Row s \<and> cout s' = cout s \<and>
     first s' = line_at line (column_of line s) \<and>
     Pos (token s') = \<lparr>Filename = m_Filename s, Column = column_of line s, Row = m_Row s\<rparr>"
proof (cases "line_at line (column_of line s) = dquote")
  case True
  obtain u where u: "ParseLine_step line s = Some u" "first u = dquote"
    "token u = Tok String \<lparr>Filename = m_Filename s, Column = column_of line s, Row = m_Row s\<rparr> []"
    "m_Tokens u = m_Tokens s @
        [Tok String \<lparr>Filename = m_Filename s, Column = column_of line s, Row = m_Row s\<rparr> []]"
    "m_Filename u = m_Filename s" "m_Row u = m_Row s" "cout u = cout s"
    using step_at_quote [OF True] by blast
  have "u = s'" using u(1) assms by simp
  then show ?thesis using u(2-) True by simp
next
  case False
  define t where "t = before_literals line s"
  note k = before_literals_keeps [of line s, folded t_def]
  have "first t \<noteq> dquote" using k False by simp
  then have s1: "string_literal line t = Some t" by (rule string_literal_other)
  then obtain t2 where t2: "number_or_word line t = Some t2" and s': "s' = push_back_token t2"
    using assms by (auto simp: ParseLine_step_def t_def [symmetric] split: bind_splits)
  from number_or_word_keeps [OF t2] k show ?thesis
    by (simp add: s' push_back_token_def)
qed

lemma column_of_le:
  "unat (cursor s) < length line \<Longrightarrow> unat (column_of line s) \<le> length line"
  using unat_cursor_succ_le [of "cursor s"] by simp

lemma step_total:
  assumes len: "length line < 2 ^ 32" and c: "unat (cursor s) < length line"
  shows "\<exists>s'. ParseLine_step line s = Some s' \<and>
     (\<exists>rs. line_reads s' = line_reads s @ rs \<and> (\<forall>i\<in>set rs. i \<le> length line))"
proof -
  define t where "t = before_literals line s"
  note k = before_literals_keeps [of line s, folded t_def]
  obtain rs0 where rs0: "line_reads t = line_reads s @ rs0" "\<forall>i\<in>set rs0. i \<le> length line"
    using before_literals_reads [OF c] unfolding t_def by blast
  show ?thesis
  proof (cases "line_at line (column_of line s) = dquote")
    case True
    then have "unat (column_of line s) < length line"
      using line_at_nonnull_valid [of line "column_of line s"] by simp
    moreover obtain s' where "ParseLine_step line s = Some s'"
      "line_reads s' = line_reads t @
        [unat (column_of line s), unat (column_of line s), unat (column_of line s)]"
      using step_at_quote [OF True] unfolding t_def by blast
    ultimately show ?thesis using rs0 by auto
  next
    case False
    then have "first t \<noteq> dquote" using k by simp
    then have s1: "string_literal line t = Some t" by (rule string_literal_other)
    have "\<exists>t2. number_or_word line t = Some t2 \<and>
       (\<exists>rs. line_reads t2 = line_reads t @ rs \<and> (\<forall>i\<in>set rs. i \<le> length line))"
    proof (cases "first t = CHR ''-''")
      case True
      then have "number_or_word line t = Some t"
        by (simp add: number_or_word_other isalnum_def isdigit_def)
      then show ?thesis by simp
    next
      case False
      then have "cursor t = column_of line s" using k by simp
      then have "unat (cursor t) \<le> length line" using column_of_le [OF c] by simp
      then show ?thesis by (rule number_or_word_total [OF len])
    qed
    then obtain t2 rs where t2: "number_or_word line t = Some t2"
      "line_reads t2 = line_reads t @ rs" "\<forall>i\<in>set rs. i \<le> length line" by blast
    have "ParseLine_step line s = Some (push_back_token t2)"
      using s1 t2(1) by (simp add: ParseLine_step_def t_def)
    moreover have "line_reads (push_back_token t2) = line_reads s @ (rs0 @ rs)"
      using t2(2) rs0(1) by (simp add: push_back_token_def)
    moreover have "\<forall>i\<in>set (rs0 @ rs). i \<le> length line" using rs0(2) t2(3) by auto
    ultimately show ?thesis by blast
  qed
qed

lemma loop_stuck_at_quote:
  assumes "unat (cursor s) < length line" and "line_at line (column_of line s) = dquote"
  shows "ParseLine_loop line s = None"
proof -
  have "\<not> (unat (cursor s) < length line \<and> line_at line (column_of line s) = dquote)"
    if "ParseLine_loop line s = Some y" for y
  proof (rule ParseLine_loop.raw_induct [where P = "\<lambda>line s y.
      \<not> (unat (cursor s) < length line \<and> line_at line (column_of line s) = dquote)", OF _ that])
    fix f line s y
    assume IH: "\<And>line s y. f line s = Some y \<Longrightarrow>
        \<not> (unat (cursor s) < length line \<and> line_at line (column_of line s) = dquote)"
      and eq: "(if unat (cursor s) < length line
        then do { s' \<leftarrow> ParseLine_step line s; f line s' } else Some s) = Some y"
    show "\<not> (unat (cursor s) < length line \<and> line_at line (column_of line s) = dquote)"
    proof
      assume a: "unat (cursor s) < length line \<and> line_at line (column_of line s) = dquote"
      then obtain s' where s': "ParseLine_step line s = Some s'" "cursor s' = column_of line s"
        using step_at_quote [of line s] by blast
      have q: "line_at line (cursor s') = dquote" using a s'(2) by simp
      then have "unat (cursor s') < length line"
        using line_at_nonnull_valid [of line "cursor s'"] by simp
      moreover have "line_at line (column_of line s') = dquote"
        using q not_space_dquote by simp
      moreover have "f line s' = Some y" using eq a s'(1) by simp
      ultimately show False using IH by blast
    qed
  qed
  then show ?thesis using assms by (cases "ParseLine_loop line s") auto
qed

lemma loop_partial:
  assumes "ParseLine_loop line s = Some s'"
  shows "m_Filename s' = m_Filename s \<and> m_Row s' = m_Row s \<and> cout s' = cout s \<and>
     (\<exists>new. m_Tokens s' = m_Tokens s @ new \<and>
        (\<forall>t\<in>set new. Filename (Pos t) = m_Filename s \<and> Row (Pos t) = m_Row s \<and>
            unat (Column (Pos t)) \<le> length line))"
proof (rule ParseLine_loop.raw_induct [where P = "\<lambda>line s s'.
     m_Filename s' = m_Filename s \<and> m_Row s' = m_Row s \<and> cout s' = cout s \<and>
     (\<exists>new. m_Tokens s' = m_Tokens s @ new \<and>
        (\<forall>t\<in>set new. Filename (Pos t) = m_Filename s \<and> Row (Pos t) = m_Row s \<and>
            unat (Column (Pos t)) \<le> length line))", OF _ assms])
  fix f line s y
  assume IH: "\<And>line s y. f line s = Some y \<Longrightarrow>
     m_Filename y = m_Filename s \<and> m_Row y = m_Row s \<and> cout y = cout s \<and>
     (\<exists>new. m_Tokens y = m_Tokens s @ new \<and>
        (\<forall>t\<in>set new. Filename (Pos t) = m_Filename s \<and> Row (Pos t) = m_Row s \<and>
            unat (Column (Pos t)) \<le> length line))"
    and eq: "(if unat (cursor s) < length line
        then do { s' \<leftarrow> ParseLine_step line s; f line s' } else Some s) = Some y"
  show "m_Filename y = m_Filename s \<and> m_Row y = m_Row s \<and> cout y = cout s \<and>
     (\<exists>new. m_Tokens y = m_Tokens s @ new \<and>
        (\<forall>t\<in>set new. Filename (Pos t) = m_Filename s \<and> Row (Pos t) = m_Row s \<and>
            unat (Column (Pos t)) \<le> length line))"
  proof (cases "unat (cursor s) < length line")
    case False
    then have "y = s" using eq by simp
    then show ?thesis by simp
  next
    case True
    then obtain s1 where s1: "ParseLine_step line s = Some s1" and f: "f line s1 = Some y"
      using eq by (auto split: bind_splits)
    note p = step_partial [OF s1]
    from IH [OF f] obtain new where new: "m_Filename y = m_Filename s1" "m_Row y = m_Row s1"
      "cout y = cout s1" "m_Tokens y = m_Tokens s1 @ new"
      "\<forall>t\<in>set new. Filename (Pos t) = m_Filename s1 \<and> Row (Pos t) = m_Row s1 \<and>
            unat (Column (Pos t)) \<le> length line"
      by blast
    have col: "unat (Column (Pos (token s1))) \<le> length line"
      using p column_of_le [OF True] by simp
    have "m_Tokens y = m_Tokens s @ (token s1 # new)" using new(4) p by simp
    moreover have "\<forall>t\<in>set (token s1 # new). Filename (Pos t) = m_Filename s \<and>
        Row (Pos t) = m_Row s \<and> unat (Column (Pos t)) \<le> length line"
      using new(5) p col by simp
    ultimately show ?thesis using new(1-3) p by metis
  qed
qed

lemma loop_reads:
  assumes "ParseLine_loop line s = Some s'"
  shows "length line < 2 ^ 32 \<longrightarrow>
     (\<exists>rs. line_reads s' = line_reads s @ rs \<and> (\<forall>i\<in>set rs. i \<le> length line))"
proof (rule ParseLine_loop.raw_induct [where P = "\<lambda>line s s'. length line < 2 ^ 32 \<longrightarrow>
     (\<exists>rs. line_reads s' = line_reads s @ rs \<and> (\<forall>i\<in>set rs. i \<le> length line))", OF _ assms])
  fix f line s y
  assume IH: "\<And>line s y. f line s = Some y \<Longrightarrow> length line < 2 ^ 32 \<longrightarrow>
     (\<exists>rs. line_reads y = line_reads s @ rs \<and> (\<forall>i\<in>set rs. i \<le> length line))"
    and eq: "(if unat (cursor s) < length line
        then do { s' \<leftarrow> ParseLine_step line s; f line s' } else Some s) = Some y"
  show "length line < 2 ^ 32 \<longrightarrow>
     (\<exists>rs. line_reads y = line_reads s @ rs \<and> (\<forall>i\<in>set rs. i \<le> length line))"
  proof
    assume len: "length line < 2 ^ 32"
    show "\<exists>rs. line_reads y = line_reads s @ rs \<and> (\<forall>i\<in>set rs. i \<le> length line)"
    proof (cases "unat (cursor s) < length line")
      case False
      then have "y = s" using eq by simp
      then show ?thesis by simp
    next
      case True
      from step_total [OF len True] obtain s1 rs1 where
        s1: "ParseLine_step line s = Some s1" "line_reads s1 = line_reads s @ rs1"
          "\<forall>i\<in>set rs1. i \<le> length line" by blast
      then have f: "f line s1 = Some y" using eq True by simp
      from IH [OF f] len obtain rs where rs: "line_reads y = line_reads s1 @ rs"
        "\<forall>i\<in>set rs. i \<le> length line" by blast
      have "line_reads y = line_reads s @ (rs1 @ rs)" using rs(1) s1(2) by simp
      moreover have "\<forall>i\<in>set (rs1 @ rs). i \<le> length line" using rs(2) s1(3) by auto
      ultimately show ?thesis by blast
    qed
  qed
qed

lemma ParseLine_partial:
  assumes "ParseLine line s = Some s'"
  shows "m_Filename s' = m_Filename s \<and> m_Row s' = m_Row s + 1 \<and> cout s' = cout s \<and>
     (\<exists>new. m_Tokens s' = m_Tokens s @ new \<and>
        (\<forall>t\<in>set new. Filename (Pos t) = m_Filename s \<and> Row (Pos t) = m_Row s \<and>
            unat (Column (Pos t)) \<le> length line))"
proof -
  obtain u where u: "ParseLine_loop line (s\<lparr>cursor := 0\<rparr>) = Some u"
    and s': "s' = u\<lparr>m_Row := m_Row u + 1\<rparr>"
    using assms by (auto simp: ParseLine_def split: bind_splits)
  from loop_partial [OF u] show ?thesis by (simp add: s')
qed

lemma isspace_no_rule: "isspace c \<Longrightarrow> no_rule c"
  by (auto simp: isspace_def no_rule_def isdigit_def isalnum_def)

lemma null_no_rule: "no_rule (CHR 0x00)"
  by (simp add: no_rule_def isdigit_def isalnum_def)

lemma step_no_rule:
  assumes "no_rule (line_at line (column_of line s))"
  shows "\<exists>s'. ParseLine_step line s = Some s' \<and>
     m_Tokens s' = m_Tokens s @
        [Tok None_tok \<lparr>Filename = m_Filename s, Column = column_of line s, Row = m_Row s\<rparr> []] \<and>
     cursor s' = column_of line s + 1 \<and> cout s' = cout s \<and>
     m_Filename s' = m_Filename s \<and> m_Row s' = m_Row s"
proof -
  define s1 where "s1 = skip_space line (enter_body line s)"
  have f: "first s1 = line_at line (column_of line s)" "cursor s1 = column_of line s"
    "token s1 = Tok None_tok \<lparr>Filename = m_Filename s, Column = column_of line s, Row = m_Row s\<rparr> []"
    "m_Tokens s1 = m_Tokens s" "cout s1 = cout s" "m_Filename s1 = m_Filename s" "m_Row s1 = m_Row s"
    unfolding s1_def skip_space_enter_body by simp_all
  have n: "no_rule (first s1)" using assms f(1) by simp
  have "before_literals line s = s1"
    using n by (simp add: s1_def [symmetric] braces_def separators_def operators_def no_rule_def)
  moreover have "string_literal line s1 = Some s1"
    using n by (simp add: string_literal_other no_rule_def)
  moreover have "number_or_word line s1 = Some s1"
    using n by (simp add: number_or_word_other no_rule_def)
  ultimately have "ParseLine_step line s = Some (push_back_token s1)"
    by (simp add: ParseLine_step_def)
  then show ?thesis using f by (simp add: push_back_token_def)
qed

lemma unat_cursor_plus2:
  "unat (c :: 32 word) + 2 < 2 ^ 32 \<Longrightarrow> unat (c + 2) = unat c + 2"
  by (simp add: unat_word_ariths)

lemma loop_all_space:
  assumes sp: "\<forall>c\<in>set line. isspace c" and len: "length line + 1 < 2 ^ 32"
  shows "unat (cursor s) \<le> length line + 1 \<Longrightarrow>
     \<exists>s'. ParseLine_loop line s = Some s' \<and>
        map (\<lambda>t. (Type t, Value t)) (m_Tokens s') =
        map (\<lambda>t. (Type t, Value t)) (m_Tokens s) @
          replicate ((length line + 1 - unat (cursor s)) div 2) (None_tok, [])"
proof (induction "length line + 1 - unat (cursor s)" arbitrary: s rule: less_induct)
  case less
  show ?case
  proof (cases "unat (cursor s) < length line")
    case False
    then have "ParseLine_loop line s = Some s" by (subst ParseLine_loop.simps) simp
    moreover have "(length line + 1 - unat (cursor s)) div 2 = 0" using False by simp
    ultimately show ?thesis by simp
  next
    case True
    then have here: "isspace (line_at line (cursor s))" using sp by (simp add: line_at_def)
    have "isspace (line_at line (cursor s + 1)) \<or> line_at line (cursor s + 1) = CHR 0x00"
      using sp by (simp add: line_at_def)
    then have "no_rule (line_at line (cursor s + 1))"
      using isspace_no_rule null_no_rule by auto
    then have "no_rule (line_at line (column_of line s))" using here by simp
    from step_no_rule [OF this] here obtain s1 where
      s1: "ParseLine_step line s = Some s1" "cursor s1 = cursor s + 1 + 1"
        "m_Tokens s1 = m_Tokens s @
          [Tok None_tok \<lparr>Filename = m_Filename s, Column = cursor s + 1, Row = m_Row s\<rparr> []]"
      by auto
    have c2: "cursor s1 = cursor s + 2" using s1(2) by simp
    have u: "unat (cursor s1) = unat (cursor s) + 2"
      unfolding c2 by (rule unat_cursor_plus2) (use True len in simp)
    have unroll: "ParseLine_loop line s = ParseLine_loop line s1"
      using True s1(1) by (subst ParseLine_loop.simps) simp
    have "length line + 1 - unat (cursor s1) < length line + 1 - unat (cursor s)"
      using True u by simp
    moreover have "unat (cursor s1) \<le> length line + 1" using True u by simp
    ultimately obtain s' where s': "ParseLine_loop line s1 = Some s'"
      "map (\<lambda>t. (Type t, Value t)) (m_Tokens s') =
        map (\<lambda>t. (Type t, Value t)) (m_Tokens s1) @
          replicate ((length line + 1 - unat (cursor s1)) div 2) (None_tok, [])"
      using less.hyps [of s1] by blast
    have "(length line + 1 - unat (cursor s)) div 2 =
        Suc ((length line + 1 - unat (cursor s1)) div 2)"
      using True u by simp
    then have "map (\<lambda>t. (Type t, Value t)) (m_Tokens s') =
        map (\<lambda>t. (Type t, Value t)) (m_Tokens s) @
          replicate ((length line + 1 - unat (cursor s)) div 2) (None_tok, [])"
      using s'(2) s1(3) by simp
    then show ?thesis using s'(1) unroll by simp
  qed
qed

lemma before_literals_reads_plain:
  assumes "line_at line (column_of line s) \<noteq> CHR ''-''"
  shows "line_reads (before_literals line s) = line_reads s @
     (if isspace (line_at line (cursor s)) then [unat (cursor s), unat (cursor s + 1)]
      else [unat (cursor s)])"
proof -
  define s1 where "s1 = skip_space line (enter_body line s)"
  define s3 where "s3 = separators (braces s1)"
  have r1: "line_reads s1 = line_reads s @
     (if isspace (line_at line (cursor s)) then [unat (cursor s), unat (cursor s + 1)]
      else [unat (cursor s)])" "first s1 = line_at line (column_of line s)"
    unfolding s1_def skip_space_enter_body by simp_all
  have r3: "line_reads s3 = line_reads s1" "first s3 = first s1"
    using braces_keeps [of s1] separators_keeps [of "braces s1"] unfolding s3_def by simp_all
  have "before_literals line s = operators line s3"
    by (simp add: s3_def s1_def)
  then show ?thesis
    using operators_reads [of line s3] r1 r3 assms by simp
qed

lemma without_reads_eq_iff:
  "without_reads s = without_reads t \<longleftrightarrow>
     m_Tokens s = m_Tokens t \<and> m_Filename s = m_Filename t \<and> m_Row s = m_Row t \<and>
     cursor s = cursor t \<and> pos s = pos t \<and> first s = first t \<and> start s = start t \<and>
     token s = token t \<and> cout s = cout t"
  by (cases s; cases t) (auto simp: without_reads_def)

lemma not_alnum_underscore: "\<not> isalnum (CHR ''_'')"
  by (simp add: isalnum_def isdigit_def)

lemma scan_word_without_reads_Some:
  assumes "scan_word line s = Some y"
  shows "\<forall>t. without_reads t = without_reads s \<longrightarrow>
     (\<exists>y'. scan_word line t = Some y' \<and> without_reads y' = without_reads y)"
proof (rule scan_word.raw_induct [where P = "\<lambda>line s y. \<forall>t. without_reads t = without_reads s \<longrightarrow>
     (\<exists>y'. scan_word line t = Some y' \<and> without_reads y' = without_reads y)", OF _ assms])
  fix f line s y
  assume IH: "\<And>line s y. f line s = Some y \<Longrightarrow> \<forall>t. without_reads t = without_reads s \<longrightarrow>
     (\<exists>y'. scan_word line t = Some y' \<and> without_reads y' = without_reads y)"
    and eq: "(if valid line s \<and> isalnum (line_at line (cursor s))
      then f line ((read_at (cursor s) s)\<lparr>cursor := cursor s + 1\<rparr>)
      else (let s = (if valid line s then read_at (cursor s) s else s);
                s = read_at (cursor s) s
            in if line_at line (cursor s) = CHR ''_''
               then f line (s\<lparr>cursor := cursor s + 1\<rparr>)
               else Some s)) = Some y"
  show "\<forall>t. without_reads t = without_reads s \<longrightarrow>
     (\<exists>y'. scan_word line t = Some y' \<and> without_reads y' = without_reads y)"
  proof (intro allI impI)
    fix t assume ts: "without_reads t = without_reads s"
    then have c: "cursor t = cursor s" by (simp add: without_reads_eq_iff)
    then have v: "valid line t = valid line s" by (simp add: valid_def)
    show "\<exists>y'. scan_word line t = Some y' \<and> without_reads y' = without_reads y"
    proof (cases "valid line s \<and> isalnum (line_at line (cursor s))")
      case True
      let ?s1 = "(read_at (cursor s) s)\<lparr>cursor := cursor s + 1\<rparr>"
      let ?t1 = "(read_at (cursor t) t)\<lparr>cursor := cursor t + 1\<rparr>"
      have "f line ?s1 = Some y" using eq True by simp
      moreover have "without_reads ?t1 = without_reads ?s1"
        using ts by (simp add: without_reads_eq_iff read_at_def)
      ultimately obtain y' where "scan_word line ?t1 = Some y'" "without_reads y' = without_reads y"
        using IH by blast
      moreover have "scan_word line t = scan_word line ?t1"
        using True c v by (subst scan_word.simps) simp
      ultimately show ?thesis by simp
    next
      case False
      define rs0 where "rs0 = (if valid line s then [unat (cursor s), unat (cursor s)]
          else [unat (cursor s)])"
      define s0 where "s0 = s\<lparr>line_reads := line_reads s @ rs0\<rparr>"
      define t0 where "t0 = t\<lparr>line_reads := line_reads t @ rs0\<rparr>"
      have t0: "without_reads t0 = without_reads s0"
        using ts by (simp add: without_reads_eq_iff s0_def t0_def)
      have eq': "(if line_at line (cursor s) = CHR ''_''
           then f line (s0\<lparr>cursor := cursor s + 1\<rparr>) else Some s0) = Some y"
        using eq False
        by (cases "valid line s") (auto simp: Let_def read_at_def s0_def rs0_def split: if_splits)
      have un: "scan_word line t = (if line_at line (cursor s) = CHR ''_''
           then scan_word line (t0\<lparr>cursor := cursor s + 1\<rparr>) else Some t0)"
        using False c v
        by (subst scan_word.simps, cases "valid line s")
           (auto simp: Let_def read_at_def t0_def rs0_def split: if_splits)
      show ?thesis
      proof (cases "line_at line (cursor s) = CHR ''_''")
        case True
        have "f line (s0\<lparr>cursor := cursor s + 1\<rparr>) = Some y"
          using eq' True by simp
        moreover have "without_reads (t0\<lparr>cursor := cursor s + 1\<rparr>) =
            without_reads (s0\<lparr>cursor := cursor s + 1\<rparr>)"
          using t0 by (simp add: without_reads_eq_iff)
        ultimately obtain y' where "scan_word line (t0\<lparr>cursor := cursor s + 1\<rparr>) = Some y'"
          "without_reads y' = without_reads y"
          using IH by blast
        then show ?thesis using un True by simp
      next
        case nu: False
        have "y = s0" using eq' nu by simp
        then show ?thesis using un nu t0 by simp
      qed
    qed
  qed
qed

lemma scan_word_without_reads:
  assumes "without_reads t = without_reads s"
  shows "map_option without_reads (scan_word line t) = map_option without_reads (scan_word line s)"
proof (cases "scan_word line s")
  case (Some y)
  from scan_word_without_reads_Some [OF Some] assms Some show ?thesis by auto
next
  case None
  show ?thesis
  proof (cases "scan_word line t")
    case n: None
    then show ?thesis using None by simp
  next
    case (Some z)
    from scan_word_without_reads_Some [OF Some] assms None show ?thesis by auto
  qed
qed

lemma scan_digits_without_reads_Some:
  assumes "scan_digits line s = Some y"
  shows "\<forall>t. without_reads t = without_reads s \<longrightarrow>
     (\<exists>y'. scan_digits line t = Some y' \<and> without_reads y' = without_reads y)"
proof (rule scan_digits.raw_induct [where P = "\<lambda>line s y. \<forall>t. without_reads t = without_reads s \<longrightarrow>
     (\<exists>y'. scan_digits line t = Some y' \<and> without_reads y' = without_reads y)", OF _ assms])
  fix f line s y
  assume IH: "\<And>line s y. f line s = Some y \<Longrightarrow> \<forall>t. without_reads t = without_reads s \<longrightarrow>
     (\<exists>y'. scan_digits line t = Some y' \<and> without_reads y' = without_reads y)"
    and eq: "(if valid line s
      then (let s = read_at (cursor s) s
            in if isdigit (line_at line (cursor s))
               then f line (s\<lparr>cursor := cursor s + 1\<rparr>)
               else Some s)
      else Some s) = Some y"
  show "\<forall>t. without_reads t = without_reads s \<longrightarrow>
     (\<exists>y'. scan_digits line t = Some y' \<and> without_reads y' = without_reads y)"
  proof (intro allI impI)
    fix t assume ts: "without_reads t = without_reads s"
    then have c: "cursor t = cursor s" by (simp add: without_reads_eq_iff)
    then have v: "valid line t = valid line s" by (simp add: valid_def)
    show "\<exists>y'. scan_digits line t = Some y' \<and> without_reads y' = without_reads y"
    proof (cases "valid line s \<and> isdigit (line_at line (cursor s))")
      case True
      let ?s1 = "(read_at (cursor s) s)\<lparr>cursor := cursor s + 1\<rparr>"
      let ?t1 = "(read_at (cursor t) t)\<lparr>cursor := cursor t + 1\<rparr>"
      have "f line ?s1 = Some y" using eq True by (simp add: Let_def read_at_def)
      moreover have "without_reads ?t1 = without_reads ?s1"
        using ts by (simp add: without_reads_eq_iff read_at_def)
      ultimately obtain y' where "scan_digits line ?t1 = Some y'"
        "without_reads y' = without_reads y"
        using IH by blast
      moreover have "scan_digits line t = scan_digits line ?t1"
        using True c v by (subst scan_digits.simps) (simp add: Let_def read_at_def)
      ultimately show ?thesis by simp
    next
      case False
      define rs0 where "rs0 = (if valid line s then [unat (cursor s)] else [])"
      have "y = s\<lparr>line_reads := line_reads s @ rs0\<rparr>"
        using eq False by (auto simp: Let_def read_at_def rs0_def split: if_splits)
      moreover have "scan_digits line t = Some (t\<lparr>line_reads := line_reads t @ rs0\<rparr>)"
        using False c v
        by (subst scan_digits.simps) (auto simp: Let_def read_at_def rs0_def split: if_splits)
      ultimately show ?thesis using ts by (simp add: without_reads_eq_iff)
    qed
  qed
qed

lemma scan_digits_without_reads:
  assumes "without_reads t = without_reads s"
  shows "map_option without_reads (scan_digits line t) =
         map_option without_reads (scan_digits line s)"
proof (cases "scan_digits line s")
  case (Some y)
  from scan_digits_without_reads_Some [OF Some] assms Some show ?thesis by auto
next
  case None
  show ?thesis
  proof (cases "scan_digits line t")
    case n: None
    then show ?thesis using None by simp
  next
    case (Some z)
    from scan_digits_without_reads_Some [OF Some] assms None show ?thesis by auto
  qed
qed

lemma string_literal_without_reads:
  assumes "without_reads t = without_reads s"
  shows "map_option without_reads (string_literal line t) =
         map_option without_reads (string_literal line s)"
proof (cases "first s = dquote")
  case False
  then show ?thesis using assms by (simp add: string_literal_def without_reads_eq_iff)
next
  case True
  have f: "first t = dquote" using True assms by (simp add: without_reads_eq_iff)
  have "without_reads (t\<lparr>start := cursor t\<rparr>) = without_reads (s\<lparr>start := cursor s\<rparr>)"
    using assms by (simp add: without_reads_eq_iff)
  from scan_word_without_reads [OF this, of line] show ?thesis
    using True f
    by (cases "scan_word line (s\<lparr>start := cursor s\<rparr>)";
        cases "scan_word line (t\<lparr>start := cursor t\<rparr>)")
       (auto simp: string_literal_def without_reads_eq_iff read_at_def read_range_def
          Expected_def currentPos_def Let_def)
qed

lemma number_or_word_without_reads:
  assumes "without_reads t = without_reads s"
  shows "map_option without_reads (number_or_word line t) =
         map_option without_reads (number_or_word line s)"
proof -
  have f: "first t = first s" using assms by (simp add: without_reads_eq_iff)
  have st: "without_reads (t\<lparr>start := cursor t\<rparr>) = without_reads (s\<lparr>start := cursor s\<rparr>)"
    using assms by (simp add: without_reads_eq_iff)
  show ?thesis
  proof (cases "isdigit (first s)")
    case True
    from scan_digits_without_reads [OF st, of line] show ?thesis
      using True f
      by (cases "scan_digits line (s\<lparr>start := cursor s\<rparr>)";
          cases "scan_digits line (t\<lparr>start := cursor t\<rparr>)")
         (auto simp: number_or_word_def without_reads_eq_iff read_range_def)
  next
    case nd: False
    show ?thesis
    proof (cases "isalnum (first s)")
      case True
      from scan_word_without_reads [OF st, of line] show ?thesis
        using True nd f
        by (cases "scan_word line (s\<lparr>start := cursor s\<rparr>)";
            cases "scan_word line (t\<lparr>start := cursor t\<rparr>)")
           (auto simp: number_or_word_def without_reads_eq_iff read_range_def Let_def)
    next
      case False
      then show ?thesis using nd f assms by (simp add: number_or_word_def)
    qed
  qed
qed

lemma braces_without_reads: "without_reads (braces s) = braces (without_reads s)"
  by (simp add: braces_def without_reads_def)

lemma separators_without_reads: "without_reads (separators s) = separators (without_reads s)"
  by (simp add: separators_def without_reads_def)

lemma operators_without_reads:
  "without_reads (operators line s) = without_reads (operators line (without_reads s))"
  by (simp add: operators_def without_reads_def Let_def read_at_def read_range_def)

lemma punctuation_without_reads:
  assumes "without_reads t = without_reads s"
  shows "without_reads (operators line (separators (braces t))) =
         without_reads (operators line (separators (braces s)))"
proof -
  have "without_reads (operators line (separators (braces u))) =
        without_reads (operators line (separators (braces (without_reads u))))" for u
    by (subst operators_without_reads)
       (simp only: separators_without_reads braces_without_reads)
  then show ?thesis using assms by metis
qed

lemma rest_of_step_without_reads:
  assumes "without_reads t = without_reads s"
  shows "map_option without_reads
           (do { u \<leftarrow> string_literal line (operators line (separators (braces t)));
                 u \<leftarrow> number_or_word line u; Some (push_back_token u) }) =
         map_option without_reads
           (do { u \<leftarrow> string_literal line (operators line (separators (braces s)));
                 u \<leftarrow> number_or_word line u; Some (push_back_token u) })"
proof -
  let ?pt = "operators line (separators (braces t))"
  let ?ps = "operators line (separators (braces s))"
  have p: "without_reads ?pt = without_reads ?ps"
    using assms by (rule punctuation_without_reads)
  note sl = string_literal_without_reads [OF p, of line]
  show ?thesis
  proof (cases "string_literal line ?ps")
    case None
    then have "string_literal line ?pt = None" using sl by simp
    then show ?thesis using None by simp
  next
    case (Some u)
    then obtain u' where u': "string_literal line ?pt = Some u'"
      "without_reads u' = without_reads u"
      using sl by auto
    note nw = number_or_word_without_reads [OF u'(2), of line]
    show ?thesis
    proof (cases "number_or_word line u")
      case None
      then have "number_or_word line u' = None" using nw by simp
      then show ?thesis using None Some u'(1) by simp
    next
      case s2: (Some w)
      then obtain w' where w': "number_or_word line u' = Some w'"
        "without_reads w' = without_reads w"
        using nw by auto
      have "without_reads (push_back_token w') = without_reads (push_back_token w)"
        using w'(2) by (simp add: without_reads_eq_iff push_back_token_def)
      then show ?thesis using Some s2 u'(1) w'(1) by simp
    qed
  qed
qed

lemma step_over_space:
  assumes "isspace (line_at line (cursor s))" and "\<not> isspace (line_at line (cursor s + 1))"
  shows "map_option without_reads (ParseLine_step line s) =
         map_option without_reads (ParseLine_step line (s\<lparr>cursor := cursor s + 1\<rparr>))"
proof -
  have "without_reads (skip_space line (enter_body line s)) =
        without_reads (skip_space line (enter_body line (s\<lparr>cursor := cursor s + 1\<rparr>)))"
    using assms by (simp add: skip_space_enter_body without_reads_eq_iff)
  from rest_of_step_without_reads [OF this, of line] show ?thesis
    by (simp add: ParseLine_step_def)
qed

lemma even_unat_plus2: "even (unat (c :: 32 word)) \<Longrightarrow> even (unat (c + 2))"
proof -
  assume e: "even (unat c)"
  have "unat (c + 2) = (unat c + 2) mod 2 ^ 32" by (simp add: unat_word_ariths)
  moreover have "(2::nat) dvd 2 ^ 32" by simp
  then have "even ((unat c + 2) mod 2 ^ 32) \<longleftrightarrow> even (unat c + 2)"
    by (rule dvd_mod_iff)
  then have "even ((unat c + 2) mod 2 ^ 32)" using e by simp
  ultimately show ?thesis by simp
qed

lemma even_unat_below: "even (unat (c :: 32 word)) \<Longrightarrow> unat c < 2 ^ 32 - 1"
proof -
  assume e: "even (unat c)"
  have "unat c < 2 ^ 32" using unsigned_less [of c, where 'a = nat] by simp
  moreover have "unat c \<noteq> 2 ^ 32 - 1" using e by auto
  ultimately show ?thesis by simp
qed

lemma loop_blank_wraps:
  assumes "\<forall>c\<in>set line. isspace c" and "2 ^ 32 \<le> length line + 1"
    and "even (unat (cursor s))"
  shows "ParseLine_loop line s = None"
proof -
  have "\<not> ((\<forall>c\<in>set line. isspace c) \<and> 2 ^ 32 \<le> length line + 1 \<and> even (unat (cursor s)))"
    if "ParseLine_loop line s = Some y" for y
  proof (rule ParseLine_loop.raw_induct [where P = "\<lambda>line s y.
      \<not> ((\<forall>c\<in>set line. isspace c) \<and> 2 ^ 32 \<le> length line + 1 \<and> even (unat (cursor s)))",
      OF _ that])
    fix f line s y
    assume IH: "\<And>line s y. f line s = Some y \<Longrightarrow>
        \<not> ((\<forall>c\<in>set line. isspace c) \<and> 2 ^ 32 \<le> length line + 1 \<and> even (unat (cursor s)))"
      and eq: "(if unat (cursor s) < length line
        then do { s' \<leftarrow> ParseLine_step line s; f line s' } else Some s) = Some y"
    show "\<not> ((\<forall>c\<in>set line. isspace c) \<and> 2 ^ 32 \<le> length line + 1 \<and> even (unat (cursor s)))"
    proof
      assume a: "(\<forall>c\<in>set line. isspace c) \<and> 2 ^ 32 \<le> length line + 1 \<and> even (unat (cursor s))"
      then have g: "unat (cursor s) < length line"
        using even_unat_below [of "cursor s"] by simp
      then have here: "isspace (line_at line (cursor s))" using a by (simp add: line_at_def)
      have "isspace (line_at line (cursor s + 1)) \<or> line_at line (cursor s + 1) = CHR 0x00"
        using a by (simp add: line_at_def)
      then have "no_rule (line_at line (cursor s + 1))"
        using isspace_no_rule null_no_rule by auto
      then have "no_rule (line_at line (column_of line s))" using here by simp
      from step_no_rule [OF this] here obtain s1 where
        s1: "ParseLine_step line s = Some s1" "cursor s1 = cursor s + 2"
        by auto
      have "even (unat (cursor s1))" using a s1(2) even_unat_plus2 by simp
      moreover have "f line s1 = Some y" using eq g s1(1) by simp
      ultimately show False using IH a by blast
    qed
  qed
  then show ?thesis using assms by (cases "ParseLine_loop line s") auto
qed

lemma digit_value: "k < 10 \<Longrightarrow> (of_char (''0123456789'' ! k) :: nat) - 48 = k"
proof -
  assume "k < 10"
  then have "k \<in> {0, 1, 2, 3, 4, 5, 6, 7, 8, 9}" by auto
  then show ?thesis by auto
qed

lemma digit_char: "k < 10 \<Longrightarrow> ''0123456789'' ! k \<in> set ''0123456789''"
proof -
  assume "k < 10"
  then have "k \<in> {0, 1, 2, 3, 4, 5, 6, 7, 8, 9}" by auto
  then show ?thesis by auto
qed

lemma decimal_value_snoc:
  "decimal_value (ds @ [d]) = 10 * decimal_value ds + (of_char d - 48)"
  by (simp add: decimal_value_def)

lemma decimal_value_show_nat: "decimal_value (show_nat n) = n"
proof (induction n rule: show_nat.induct)
  case (1 n)
  show ?case
  proof (cases "n < 10")
    case True
    then show ?thesis
      by (subst show_nat.simps) (simp add: decimal_value_def digit_value)
  next
    case False
    then have "show_nat n = show_nat (n div 10) @ [''0123456789'' ! (n mod 10)]"
      by (subst show_nat.simps) simp
    then show ?thesis
      using 1 False by (simp add: decimal_value_snoc digit_value)
  qed
qed

lemma show_nat_digits: "show_nat n \<noteq> [] \<and> set (show_nat n) \<subseteq> set ''0123456789''"
proof (induction n rule: show_nat.induct)
  case (1 n)
  show ?case
  proof (cases "n < 10")
    case True
    then have "show_nat n = [''0123456789'' ! n]" by (subst show_nat.simps) simp
    then show ?thesis using digit_char [OF True] by simp
  next
    case False
    then have "show_nat n = show_nat (n div 10) @ [''0123456789'' ! (n mod 10)]"
      by (subst show_nat.simps) simp
    moreover have "''0123456789'' ! (n mod 10) \<in> set ''0123456789''"
      by (rule digit_char) simp
    ultimately show ?thesis using 1 False by simp
  qed
qed

lemma step_position:
  assumes c: "unat (cursor s) < length line" and st: "ParseLine_step line s = Some s'"
  shows "position_in_line line (token s')"
proof (cases "unat (column_of line s) < length line")
  case True
  then show ?thesis using step_partial [OF st] by (simp add: position_in_line_def)
next
  case False
  then have sp: "isspace (line_at line (cursor s))" using c by (auto split: if_splits)
  then have col: "column_of line s = cursor s + 1" by simp
  have le: "unat (cursor s + 1) \<le> length line" using column_of_le [OF c] sp by simp
  then have eq: "unat (cursor s + 1) = length line" using False col by simp
  have "unat (cursor s + 1) \<le> Suc (unat (cursor s))" by (rule unat_cursor_succ_le)
  then have last_ix: "unat (cursor s) = length line - 1" using eq c by simp
  have ne: "line \<noteq> []" using c by auto
  have "line_at line (cursor s) = line ! (length line - 1)"
    using c last_ix by (simp add: line_at_def)
  then have sl: "isspace (last line)" using sp ne by (simp add: last_conv_nth)
  have "line_at line (cursor s + 1) = CHR 0x00" using eq by (simp add: line_at_def)
  then have "no_rule (line_at line (column_of line s))" using col null_no_rule by simp
  from step_no_rule [OF this] st col
  have "m_Tokens s' = m_Tokens s @
      [Tok None_tok \<lparr>Filename = m_Filename s, Column = cursor s + 1, Row = m_Row s\<rparr> []]"
    by simp
  then have "token s' = Tok None_tok \<lparr>Filename = m_Filename s, Column = cursor s + 1, Row = m_Row s\<rparr> []"
    using step_partial [OF st] by simp
  then show ?thesis using eq ne sl by (simp add: position_in_line_def)
qed

lemma loop_positions:
  assumes "ParseLine_loop line s = Some s'"
  shows "\<exists>new. m_Tokens s' = m_Tokens s @ new \<and>
        (\<forall>t\<in>set new. Filename (Pos t) = m_Filename s \<and> Row (Pos t) = m_Row s \<and>
            position_in_line line t)"
proof (rule ParseLine_loop.raw_induct [where P = "\<lambda>line s s'.
     \<exists>new. m_Tokens s' = m_Tokens s @ new \<and>
        (\<forall>t\<in>set new. Filename (Pos t) = m_Filename s \<and> Row (Pos t) = m_Row s \<and>
            position_in_line line t)", OF _ assms])
  fix f line s y
  assume IH: "\<And>line s y. f line s = Some y \<Longrightarrow>
     \<exists>new. m_Tokens y = m_Tokens s @ new \<and>
        (\<forall>t\<in>set new. Filename (Pos t) = m_Filename s \<and> Row (Pos t) = m_Row s \<and>
            position_in_line line t)"
    and eq: "(if unat (cursor s) < length line
        then do { s' \<leftarrow> ParseLine_step line s; f line s' } else Some s) = Some y"
  show "\<exists>new. m_Tokens y = m_Tokens s @ new \<and>
        (\<forall>t\<in>set new. Filename (Pos t) = m_Filename s \<and> Row (Pos t) = m_Row s \<and>
            position_in_line line t)"
  proof (cases "unat (cursor s) < length line")
    case False
    then have "y = s" using eq by simp
    then show ?thesis by simp
  next
    case True
    then obtain s1 where s1: "ParseLine_step line s = Some s1" and f: "f line s1 = Some y"
      using eq by (auto split: bind_splits)
    note p = step_partial [OF s1]
    note q = step_position [OF True s1]
    from IH [OF f] obtain new where new: "m_Tokens y = m_Tokens s1 @ new"
      "\<forall>t\<in>set new. Filename (Pos t) = m_Filename s1 \<and> Row (Pos t) = m_Row s1 \<and>
            position_in_line line t"
      by blast
    have "m_Tokens y = m_Tokens s @ (token s1 # new)" using new(1) p by simp
    moreover have "\<forall>t\<in>set (token s1 # new). Filename (Pos t) = m_Filename s \<and>
        Row (Pos t) = m_Row s \<and> position_in_line line t"
      using new(2) p q by simp
    ultimately show ?thesis by blast
  qed
qed

lemma ParseLine_positions:
  assumes "ParseLine line s = Some s'"
  shows "m_Filename s' = m_Filename s \<and> m_Row s' = m_Row s + 1 \<and>
     (\<exists>new. m_Tokens s' = m_Tokens s @ new \<and>
        (\<forall>t\<in>set new. Filename (Pos t) = m_Filename s \<and> Row (Pos t) = m_Row s \<and>
            position_in_line line t))"
proof -
  obtain u where u: "ParseLine_loop line (s\<lparr>cursor := 0\<rparr>) = Some u"
    and s': "s' = u\<lparr>m_Row := m_Row u + 1\<rparr>"
    using assms by (auto simp: ParseLine_def split: bind_splits)
  from loop_positions [OF u] loop_partial [OF u] show ?thesis by (simp add: s')
qed

lemma ParseLines_tokens:
  "ParseLines lines s = Some s' \<Longrightarrow>
   m_Filename s' = m_Filename s \<and> m_Row s' = m_Row s + of_nat (length lines) \<and>
   (\<exists>new. m_Tokens s' = m_Tokens s @ new \<and>
      (\<forall>t\<in>set new. Filename (Pos t) = m_Filename s \<and>
          (\<exists>k<length lines. Row (Pos t) = m_Row s + of_nat k \<and> position_in_line (lines ! k) t)))"
proof (induction lines arbitrary: s)
  case Nil
  then show ?case by simp
next
  case (Cons line rest)
  then obtain s1 where s1: "ParseLine line s = Some s1" and r: "ParseLines rest s1 = Some s'"
    by (auto split: bind_splits)
  from ParseLine_positions [OF s1] obtain new1 where
    p: "m_Filename s1 = m_Filename s" "m_Row s1 = m_Row s + 1" "m_Tokens s1 = m_Tokens s @ new1"
      "\<forall>t\<in>set new1. Filename (Pos t) = m_Filename s \<and> Row (Pos t) = m_Row s \<and>
            position_in_line line t"
    by blast
  from Cons.IH [OF r] obtain new2 where
    q: "m_Filename s' = m_Filename s1" "m_Row s' = m_Row s1 + of_nat (length rest)"
      "m_Tokens s' = m_Tokens s1 @ new2"
      "\<forall>t\<in>set new2. Filename (Pos t) = m_Filename s1 \<and>
          (\<exists>k<length rest. Row (Pos t) = m_Row s1 + of_nat k \<and> position_in_line (rest ! k) t)"
    by blast
  have app: "m_Tokens s' = m_Tokens s @ (new1 @ new2)" using p(3) q(3) by simp
  have all: "\<forall>t\<in>set (new1 @ new2). Filename (Pos t) = m_Filename s \<and>
      (\<exists>k<length (line # rest). Row (Pos t) = m_Row s + of_nat k \<and>
          position_in_line ((line # rest) ! k) t)"
  proof
    fix t assume "t \<in> set (new1 @ new2)"
    then consider "t \<in> set new1" | "t \<in> set new2" by auto
    then show "Filename (Pos t) = m_Filename s \<and>
      (\<exists>k<length (line # rest). Row (Pos t) = m_Row s + of_nat k \<and>
          position_in_line ((line # rest) ! k) t)"
    proof cases
      case 1
      then have f: "Filename (Pos t) = m_Filename s"
        and "0 < length (line # rest) \<and> Row (Pos t) = m_Row s + of_nat 0 \<and>
          position_in_line ((line # rest) ! 0) t"
        using p(4) by simp_all
      then have "\<exists>k<length (line # rest). Row (Pos t) = m_Row s + of_nat k \<and>
          position_in_line ((line # rest) ! k) t"
        by (intro exI [of _ 0])
      then show ?thesis using f by simp
    next
      case 2
      then obtain k where k: "Filename (Pos t) = m_Filename s1" "k < length rest"
        "Row (Pos t) = m_Row s1 + of_nat k" "position_in_line (rest ! k) t"
        using q(4) by blast
      have "Suc k < length (line # rest) \<and> Row (Pos t) = m_Row s + of_nat (Suc k) \<and>
          position_in_line ((line # rest) ! Suc k) t"
        using k(2,3,4) p(2) by simp
      then have "\<exists>k<length (line # rest). Row (Pos t) = m_Row s + of_nat k \<and>
          position_in_line ((line # rest) ! k) t"
        by (rule exI [of _ "Suc k"])
      then show ?thesis using k(1) p(1) by simp
    qed
  qed
  have row: "m_Row s' = m_Row s + of_nat (length (line # rest))"
    using q(2) p(2) by simp
  have "\<exists>new. m_Tokens s' = m_Tokens s @ new \<and>
      (\<forall>t\<in>set new. Filename (Pos t) = m_Filename s \<and>
          (\<exists>k<length (line # rest). Row (Pos t) = m_Row s + of_nat k \<and>
              position_in_line ((line # rest) ! k) t))"
    using app all by (intro exI [of _ "new1 @ new2"] conjI)
  then show ?case using row p(1) q(1) by simp
qed

lemma unat_of_nat_index: "k < n \<Longrightarrow> unat (of_nat k :: 32 word) < n"
proof -
  assume "k < n"
  moreover have "unat (of_nat k :: 32 word) \<le> k" by (simp add: unat_of_nat)
  ultimately show ?thesis by simp
qed

lemma loop_is_iterations:
  assumes "ParseLine_loop line s = Some s'"
  shows "\<exists>n. ParseLine_iterations n line s = Some s' \<and> \<not> unat (cursor s') < length line"
proof (rule ParseLine_loop.raw_induct [where P = "\<lambda>line s s'.
     \<exists>n. ParseLine_iterations n line s = Some s' \<and> \<not> unat (cursor s') < length line",
     OF _ assms])
  fix f line s y
  assume IH: "\<And>line s y. f line s = Some y \<Longrightarrow>
     \<exists>n. ParseLine_iterations n line s = Some y \<and> \<not> unat (cursor y) < length line"
    and eq: "(if unat (cursor s) < length line
        then do { s' \<leftarrow> ParseLine_step line s; f line s' } else Some s) = Some y"
  show "\<exists>n. ParseLine_iterations n line s = Some y \<and> \<not> unat (cursor y) < length line"
  proof (cases "unat (cursor s) < length line")
    case False
    then have "ParseLine_iterations 0 line s = Some y \<and> \<not> unat (cursor y) < length line"
      using eq by simp
    then show ?thesis by (rule exI)
  next
    case True
    then obtain s1 where s1: "ParseLine_step line s = Some s1" and f: "f line s1 = Some y"
      using eq by (auto split: bind_splits)
    from IH [OF f] obtain n where
      n: "ParseLine_iterations n line s1 = Some y" "\<not> unat (cursor y) < length line"
      by blast
    have "ParseLine_iterations (Suc n) line s = Some y \<and> \<not> unat (cursor y) < length line"
      using True s1 n by simp
    then show ?thesis by (rule exI)
  qed
qed

lemma iterations_positions:
  "ParseLine_iterations n line s = Some s' \<Longrightarrow>
   m_Filename s' = m_Filename s \<and> m_Row s' = m_Row s \<and>
   (\<exists>new. m_Tokens s' = m_Tokens s @ new \<and>
      (\<forall>t\<in>set new. Filename (Pos t) = m_Filename s \<and> Row (Pos t) = m_Row s \<and>
          position_in_line line t))"
proof (induction n arbitrary: s)
  case 0
  then show ?case by simp
next
  case (Suc n)
  then have c: "unat (cursor s) < length line" by (simp split: if_splits)
  then obtain s1 where s1: "ParseLine_step line s = Some s1"
    and r: "ParseLine_iterations n line s1 = Some s'"
    using Suc.prems by (auto split: bind_splits)
  note p = step_partial [OF s1]
  note q = step_position [OF c s1]
  from Suc.IH [OF r] obtain new where new: "m_Filename s' = m_Filename s1" "m_Row s' = m_Row s1"
    "m_Tokens s' = m_Tokens s1 @ new"
    "\<forall>t\<in>set new. Filename (Pos t) = m_Filename s1 \<and> Row (Pos t) = m_Row s1 \<and>
          position_in_line line t"
    by blast
  have "m_Tokens s' = m_Tokens s @ (token s1 # new)" using new(3) p by simp
  moreover have "\<forall>t\<in>set (token s1 # new). Filename (Pos t) = m_Filename s \<and>
      Row (Pos t) = m_Row s \<and> position_in_line line t"
    using new(4) p q by simp
  ultimately have "\<exists>new. m_Tokens s' = m_Tokens s @ new \<and>
      (\<forall>t\<in>set new. Filename (Pos t) = m_Filename s \<and> Row (Pos t) = m_Row s \<and>
          position_in_line line t)"
    by blast
  then show ?case using new(1,2) p by simp
qed

lemma tokens_during_scan:
  assumes k: "k < length lines"
    and s0: "ParseLines (take k lines) (Lexer_new filename) = Some s0"
    and it: "ParseLine_iterations n (lines ! k) (s0\<lparr>cursor := 0\<rparr>) = Some s"
    and t: "t \<in> set (m_Tokens s)"
  shows "Filename (Pos t) = filename \<and>
     (\<exists>j<length lines. Row (Pos t) = of_nat j \<and> position_in_line (lines ! j) t)"
proof -
  from ParseLines_tokens [OF s0] k obtain old where
    o: "m_Filename s0 = filename" "m_Row s0 = of_nat k" "m_Tokens s0 = old"
      "\<forall>t\<in>set old. Filename (Pos t) = filename \<and>
          (\<exists>j<k. Row (Pos t) = of_nat j \<and> position_in_line (take k lines ! j) t)"
    by (auto simp: Lexer_new_def)
  from iterations_positions [OF it] obtain new where
    n: "m_Tokens s = m_Tokens s0 @ new"
      "\<forall>t\<in>set new. Filename (Pos t) = m_Filename s0 \<and> Row (Pos t) = m_Row s0 \<and>
          position_in_line (lines ! k) t"
    by auto
  from t n(1) o(3) consider "t \<in> set old" | "t \<in> set new" by auto
  then show ?thesis
  proof cases
    case 1
    then obtain j where j: "Filename (Pos t) = filename" "j < k" "Row (Pos t) = of_nat j"
      "position_in_line (take k lines ! j) t"
      using o(4) by blast
    have "j < length lines \<and> Row (Pos t) = of_nat j \<and> position_in_line (lines ! j) t"
      using j k by simp
    then have "\<exists>j<length lines. Row (Pos t) = of_nat j \<and> position_in_line (lines ! j) t"
      by (rule exI)
    then show ?thesis using j(1) by simp
  next
    case 2
    then have "k < length lines \<and> Row (Pos t) = of_nat k \<and> position_in_line (lines ! k) t"
      using n(2) o(2) k by simp
    then have "\<exists>j<length lines. Row (Pos t) = of_nat j \<and> position_in_line (lines ! j) t"
      by (rule exI)
    moreover have "Filename (Pos t) = filename" using 2 n(2) o(1) by simp
    ultimately show ?thesis by simp
  qed
qed

lemma scan_word_run:
  "\<forall>i<m. unat (cursor s) + i < length line \<and> unat (cursor s) + i < 2 ^ 32 \<and>
       (isalnum (line ! (unat (cursor s) + i)) \<or> line ! (unat (cursor s) + i) = CHR ''_'') \<Longrightarrow>
   \<exists>rs. scan_word line s =
          scan_word line (s\<lparr>cursor := cursor s + of_nat m, line_reads := line_reads s @ rs\<rparr>)"
proof (induction m arbitrary: s)
  case 0
  have "s\<lparr>cursor := cursor s + of_nat 0, line_reads := line_reads s @ []\<rparr> = s" by simp
  then show ?case by metis
next
  case (Suc m)
  let ?c = "cursor s"
  from Suc.prems have h0: "unat ?c < length line" "unat ?c < 2 ^ 32"
    "isalnum (line ! unat ?c) \<or> line ! unat ?c = CHR ''_''"
    by (auto dest: spec [of _ 0])
  then have la: "line_at line ?c = line ! unat ?c" and v: "valid line s"
    by (simp_all add: line_at_def valid_def)
  define rs0 where "rs0 = (if isalnum (line ! unat ?c) then [unat ?c] else [unat ?c, unat ?c])"
  define s1 where "s1 = s\<lparr>line_reads := line_reads s @ rs0, cursor := ?c + 1\<rparr>"
  have un: "scan_word line s = scan_word line s1"
    using h0(3) la v
    by (subst scan_word.simps) (auto simp: s1_def rs0_def read_at_def Let_def)
  have "\<forall>i<m. unat (cursor s1) + i < length line \<and> unat (cursor s1) + i < 2 ^ 32 \<and>
       (isalnum (line ! (unat (cursor s1) + i)) \<or> line ! (unat (cursor s1) + i) = CHR ''_'')"
  proof (intro allI impI)
    fix i assume i: "i < m"
    then have h: "unat ?c + Suc i < length line" "unat ?c + Suc i < 2 ^ 32"
      "isalnum (line ! (unat ?c + Suc i)) \<or> line ! (unat ?c + Suc i) = CHR ''_''"
      using Suc.prems by (auto dest: spec [of _ "Suc i"])
    have "unat (?c + 1) = Suc (unat ?c)"
      by (rule unat_cursor_Suc [of _ "unat ?c + Suc i"]) (use h(2) in simp_all)
    then have "unat (cursor s1) + i = unat ?c + Suc i" by (simp add: s1_def)
    then show "unat (cursor s1) + i < length line \<and> unat (cursor s1) + i < 2 ^ 32 \<and>
       (isalnum (line ! (unat (cursor s1) + i)) \<or> line ! (unat (cursor s1) + i) = CHR ''_'')"
      using h by simp
  qed
  from Suc.IH [OF this] obtain rs where
    "scan_word line s1 =
       scan_word line (s1\<lparr>cursor := cursor s1 + of_nat m, line_reads := line_reads s1 @ rs\<rparr>)"
    by blast
  moreover have "s1\<lparr>cursor := cursor s1 + of_nat m, line_reads := line_reads s1 @ rs\<rparr> =
      s\<lparr>cursor := ?c + of_nat (Suc m), line_reads := line_reads s @ (rs0 @ rs)\<rparr>"
    by (simp add: s1_def)
  ultimately show ?case using un by metis
qed

lemma long_line_nth:
  "length long_line = 2 ^ 32" "long_line ! 0 = CHR ''a''" "long_line ! 1 = CHR ''a''"
  "long_line ! 2 = CHR '' ''" "3 \<le> i \<Longrightarrow> i < 2 ^ 32 \<Longrightarrow> long_line ! i = CHR ''a''"
  by (simp_all add: nth_append)

lemma isalnum_a: "isalnum (CHR ''a'')" "\<not> isdigit (CHR ''a'')" "\<not> isspace (CHR ''a'')"
  "isspace (CHR '' '')" "\<not> isalnum (CHR '' '')"
  by (simp_all add: isalnum_def isdigit_def isspace_def)

lemma long_line_scan:
  assumes "cursor t = 3"
  shows "\<exists>u. scan_word long_line t = Some u \<and> cursor u = 2"
proof -
  have "\<forall>i<2 ^ 32 - 3. unat (cursor t) + i < length long_line \<and> unat (cursor t) + i < 2 ^ 32 \<and>
       (isalnum (long_line ! (unat (cursor t) + i)) \<or> long_line ! (unat (cursor t) + i) = CHR ''_'')"
    using assms long_line_nth(1) long_line_nth(5) isalnum_a(1) by auto
  from scan_word_run [OF this] obtain rs where
    r: "scan_word long_line t =
      scan_word long_line (t\<lparr>cursor := cursor t + of_nat (2 ^ 32 - 3), line_reads := line_reads t @ rs\<rparr>)"
    by blast
  have w: "cursor t + of_nat (2 ^ 32 - 3) = (0 :: 32 word)" using assms by simp
  define t0 where "t0 = t\<lparr>cursor := 0, line_reads := line_reads t @ rs\<rparr>"
  have r0: "scan_word long_line t = scan_word long_line t0"
    using r unfolding w t0_def by simp
  define t1 where "t1 = (read_at 0 t0)\<lparr>cursor := 1\<rparr>"
  have r1: "scan_word long_line t0 = scan_word long_line t1"
    using long_line_nth(1,2) isalnum_a(1)
    by (subst scan_word.simps) (simp add: t0_def t1_def valid_def line_at_def)
  define t2 where "t2 = (read_at 1 t1)\<lparr>cursor := 2\<rparr>"
  have r2: "scan_word long_line t1 = scan_word long_line t2"
    using long_line_nth(1,3) isalnum_a(1)
    by (subst scan_word.simps) (simp add: t1_def t2_def valid_def line_at_def read_at_def)
  have r3: "scan_word long_line t2 = Some (read_at 2 (read_at 2 t2))"
    using long_line_nth(1,4) isalnum_a(5)
    by (subst scan_word.simps) (simp add: t2_def valid_def line_at_def read_at_def Let_def)
  have "cursor (read_at 2 (read_at 2 t2)) = 2" by (simp add: t2_def read_at_def)
  then show ?thesis using r0 r1 r2 r3 by simp
qed

lemma long_line_second_step:
  assumes "cursor s = 2"
  shows "\<exists>s'. ParseLine_step long_line s = Some s' \<and> length long_line + 1 \<in> set (line_reads s')"
proof -
  define t where "t = before_literals long_line s"
  note k = before_literals_keeps [of long_line s, folded t_def]
  have sp: "isspace (line_at long_line (cursor s))"
    using assms long_line_nth(1,4) isalnum_a(4) by (simp add: line_at_def)
  have col: "column_of long_line s = 3" using sp assms by simp
  have la: "line_at long_line (column_of long_line s) = CHR ''a''"
    unfolding col using long_line_nth(1) long_line_nth(5) [of 3] by (simp add: line_at_def)
  have ft: "first t = CHR ''a''" and ct: "cursor t = 3"
    using k la col by simp_all
  have s1: "string_literal long_line t = Some t"
    using ft by (simp add: string_literal_other)
  obtain u where u: "scan_word long_line (t\<lparr>start := cursor t\<rparr>) = Some u" "cursor u = 2"
    using long_line_scan [of "t\<lparr>start := cursor t\<rparr>"] ct by auto
  have su: "start u = 3" using scan_word_advanced [OF u(1)] ct by (simp add: advanced_def)
  define w where "w = (read_range (start u) (cursor u - start u) u)"
  have "cursor u - start u = (4294967295 :: 32 word)" unfolding u(2) su by simp
  then have d: "unat (cursor u - start u) = 2 ^ 32 - 1" by simp
  have "length long_line + 1 \<in> {unat (start u) ..< unat (start u) + unat (cursor u - start u)}"
    using d su long_line_nth(1) by simp
  then have "length long_line + 1 \<in> set [unat (start u) ..< unat (start u) + unat (cursor u - start u)]"
    by (simp only: set_upt)
  then have m: "length long_line + 1 \<in> set (line_reads w)"
    by (simp add: w_def read_range_def)
  obtain w' where w': "number_or_word long_line t = Some w'" "line_reads w' = line_reads w"
    using ft isalnum_a(1,2) u(1)
    by (simp add: number_or_word_def w_def read_range_def Let_def)
  have "ParseLine_step long_line s = Some (push_back_token w')"
    using s1 w'(1) by (simp add: ParseLine_step_def t_def)
  moreover have "line_reads (push_back_token w') = line_reads w"
    using w'(2) by (simp add: push_back_token_def)
  ultimately show ?thesis using m by simp
qed

lemma long_line_first_step:
  "\<exists>s1. ParseLine_step long_line (Lexer_new ''a.vs'') = Some s1 \<and> cursor s1 = 2"
  by (simp add: ParseLine_defs scan_word.simps Lexer_new_def nth_append)

lemma before_literals_reads_exact:
  "line_reads (before_literals line s) = line_reads s @
     (if isspace (line_at line (cursor s)) then [unat (cursor s), unat (cursor s + 1)]
      else [unat (cursor s)]) @
     (if line_at line (column_of line s) = CHR ''-'' then
        (if line_at line (column_of line s + 1) = CHR ''>''
         then [unat (column_of line s + 1), unat (column_of line s), Suc (unat (column_of line s))]
         else [unat (column_of line s + 1)])
      else [])"
proof -
  define s1 where "s1 = skip_space line (enter_body line s)"
  define s3 where "s3 = separators (braces s1)"
  have r1: "line_reads s1 = line_reads s @
     (if isspace (line_at line (cursor s)) then [unat (cursor s), unat (cursor s + 1)]
      else [unat (cursor s)])" "first s1 = line_at line (column_of line s)"
     "cursor s1 = column_of line s"
    unfolding s1_def skip_space_enter_body by simp_all
  have r3: "line_reads s3 = line_reads s1" "first s3 = first s1" "cursor s3 = cursor s1"
    using braces_keeps [of s1] separators_keeps [of "braces s1"] unfolding s3_def by simp_all
  have "before_literals line s = operators line s3"
    by (simp add: s3_def s1_def)
  then show ?thesis
    using operators_reads [of line s3] r1 r3 by simp
qed

lemma step_no_rule_reads:
  assumes "no_rule (line_at line (column_of line s))"
  shows "\<exists>s'. ParseLine_step line s = Some s' \<and>
     line_reads s' = line_reads s @
       (if isspace (line_at line (cursor s)) then [unat (cursor s), unat (cursor s + 1)]
        else [unat (cursor s)])"
proof -
  define t where "t = before_literals line s"
  note k = before_literals_keeps [of line s, folded t_def]
  have n: "no_rule (first t)" using k assms by simp
  then have nm: "line_at line (column_of line s) \<noteq> CHR ''-''"
    using k by (auto simp: no_rule_def)
  have r: "line_reads t = line_reads s @
       (if isspace (line_at line (cursor s)) then [unat (cursor s), unat (cursor s + 1)]
        else [unat (cursor s)])"
    unfolding t_def before_literals_reads_exact using nm by simp
  have "string_literal line t = Some t" using n by (simp add: string_literal_other no_rule_def)
  moreover have "number_or_word line t = Some t"
    using n by (simp add: number_or_word_other no_rule_def)
  ultimately have "ParseLine_step line s = Some (push_back_token t)"
    by (simp add: ParseLine_step_def t_def)
  then show ?thesis using r by (simp add: push_back_token_def)
qed

lemma step_minus_reads:
  assumes "line_at line (column_of line s) = CHR ''-''"
    and "line_at line (column_of line s + 1) \<noteq> CHR ''>''"
  shows "\<exists>s'. ParseLine_step line s = Some s' \<and>
     line_reads s' = line_reads s @
       (if isspace (line_at line (cursor s)) then [unat (cursor s), unat (cursor s + 1)]
        else [unat (cursor s)]) @ [unat (column_of line s + 1)]"
proof -
  define t where "t = before_literals line s"
  note k = before_literals_keeps [of line s, folded t_def]
  have f: "first t = CHR ''-''" using k assms by simp
  have r: "line_reads t = line_reads s @
       (if isspace (line_at line (cursor s)) then [unat (cursor s), unat (cursor s + 1)]
        else [unat (cursor s)]) @ [unat (column_of line s + 1)]"
    unfolding t_def before_literals_reads_exact using assms by simp
  have "string_literal line t = Some t" using f by (simp add: string_literal_other)
  moreover have "number_or_word line t = Some t"
    using f by (simp add: number_or_word_other isalnum_def isdigit_def)
  ultimately have "ParseLine_step line s = Some (push_back_token t)"
    by (simp add: ParseLine_step_def t_def)
  then show ?thesis using r by (simp add: push_back_token_def)
qed

lemma scan_word_to_end:
  assumes len: "length line < 2 ^ 32" and c: "unat (cursor s) \<le> length line"
    and run: "\<forall>i. unat (cursor s) \<le> i \<and> i < length line \<longrightarrow>
        isalnum (line ! i) \<or> line ! i = CHR ''_''"
  shows "\<exists>rs. scan_word line s =
     Some (s\<lparr>cursor := of_nat (length line), line_reads := line_reads s @ rs @ [length line]\<rparr>)"
proof -
  define m where "m = length line - unat (cursor s)"
  have "\<forall>i<m. unat (cursor s) + i < length line \<and> unat (cursor s) + i < 2 ^ 32 \<and>
       (isalnum (line ! (unat (cursor s) + i)) \<or> line ! (unat (cursor s) + i) = CHR ''_'')"
    using len run by (auto simp: m_def)
  from scan_word_run [OF this] obtain rs where
    r: "scan_word line s =
      scan_word line (s\<lparr>cursor := cursor s + of_nat m, line_reads := line_reads s @ rs\<rparr>)"
    by blast
  have "cursor s + of_nat m = of_nat (unat (cursor s)) + (of_nat m :: 32 word)" by simp
  also have "\<dots> = of_nat (unat (cursor s) + m)" by simp
  also have "\<dots> = of_nat (length line)" using c by (simp add: m_def)
  finally have e: "cursor s + of_nat m = (of_nat (length line) :: 32 word)" .
  have u: "unat (of_nat (length line) :: 32 word) = length line"
    using len by (simp add: unat_of_nat)
  define t where "t = s\<lparr>cursor := of_nat (length line), line_reads := line_reads s @ rs\<rparr>"
  have "scan_word line t = Some (read_at (cursor t) t)"
    using u by (subst scan_word.simps) (simp add: t_def valid_def line_at_def Let_def read_at_def)
  moreover have "read_at (cursor t) t =
      s\<lparr>cursor := of_nat (length line), line_reads := line_reads s @ rs @ [length line]\<rparr>"
    using u by (simp add: t_def read_at_def)
  ultimately show ?thesis using r e by (metis t_def)
qed

lemma isalnum_plain:
  "isalnum c \<Longrightarrow> c \<notin> set ''{}();:+-*/='' \<and> c \<noteq> dquote \<and> \<not> isspace c"
  by (auto simp: isalnum_def isdigit_def isspace_def)

lemma step_word_to_end:
  assumes len: "length line < 2 ^ 32" and c: "unat (cursor s) < length line"
    and a: "isalnum (line ! unat (cursor s))" and d: "\<not> isdigit (line ! unat (cursor s))"
    and run: "\<forall>i. unat (cursor s) \<le> i \<and> i < length line \<longrightarrow>
        isalnum (line ! i) \<or> line ! i = CHR ''_''"
  shows "\<exists>s'. ParseLine_step line s = Some s' \<and>
     length line \<in> set (drop (length (line_reads s)) (line_reads s'))"
proof -
  define t where "t = before_literals line s"
  note k = before_literals_keeps [of line s, folded t_def]
  have la: "line_at line (cursor s) = line ! unat (cursor s)" using c by (simp add: line_at_def)
  note pl = isalnum_plain [OF a]
  have col: "column_of line s = cursor s" using pl la by simp
  have ft: "first t = line ! unat (cursor s)" and ct: "cursor t = cursor s"
    using k col la pl by auto
  have rt: "line_reads t = line_reads s @ [unat (cursor s)]"
    unfolding t_def before_literals_reads_exact using col la pl by auto
  have s1: "string_literal line t = Some t" using ft pl by (simp add: string_literal_other)
  let ?t = "t\<lparr>start := cursor t\<rparr>"
  have "unat (cursor ?t) \<le> length line" using ct c by simp
  moreover have "\<forall>i. unat (cursor ?t) \<le> i \<and> i < length line \<longrightarrow>
        isalnum (line ! i) \<or> line ! i = CHR ''_''"
    using run ct by simp
  ultimately obtain rs where u: "scan_word line ?t =
     Some (?t\<lparr>cursor := of_nat (length line), line_reads := line_reads ?t @ rs @ [length line]\<rparr>)"
    using scan_word_to_end [OF len, of ?t] by blast
  obtain w where w: "number_or_word line t = Some w"
    "\<exists>rs'. line_reads w = line_reads t @ rs @ [length line] @ rs'"
    using ft a d u by (simp add: number_or_word_def read_range_def Let_def)
  then obtain rs' where rs': "line_reads w = line_reads t @ rs @ [length line] @ rs'" by blast
  have "ParseLine_step line s = Some (push_back_token w)"
    using s1 w(1) by (simp add: ParseLine_step_def t_def)
  moreover have "line_reads (push_back_token w) =
      line_reads s @ ([unat (cursor s)] @ rs @ [length line] @ rs')"
    using rs' rt by (simp add: push_back_token_def)
  ultimately show ?thesis by simp
qed

text \<open>
  An iteration whose character is the double quote is the only one that runs the loop of
  line 168, and it reads the line below \<open>line.size()\<close> only: that loop stops on the
  opening quote, where it started.
\<close>

lemma string_branch_reads_below_length:
  "\<not> (\<exists>line s s'. unat (cursor s) < length line \<and> ParseLine_step line s = Some s' \<and>
        first s' = dquote \<and> length line \<in> set (drop (length (line_reads s)) (line_reads s')))"
proof
  assume "\<exists>line s s'. unat (cursor s) < length line \<and> ParseLine_step line s = Some s' \<and>
        first s' = dquote \<and> length line \<in> set (drop (length (line_reads s)) (line_reads s'))"
  then obtain line s s' where c: "unat (cursor s) < length line"
    and st: "ParseLine_step line s = Some s'" and f: "first s' = dquote"
    and m: "length line \<in> set (drop (length (line_reads s)) (line_reads s'))"
    by blast
  have q: "line_at line (column_of line s) = dquote"
    using step_partial [OF st] f by simp
  then have v: "unat (column_of line s) < length line"
    using line_at_nonnull_valid [of line "column_of line s"] by simp
  obtain u where u: "ParseLine_step line s = Some u"
    "line_reads u = line_reads (before_literals line s) @
        [unat (column_of line s), unat (column_of line s), unat (column_of line s)]"
    using step_at_quote [OF q] by blast
  have "u = s'" using u(1) st by simp
  moreover have "line_reads (before_literals line s) = line_reads s @
     (if isspace (line_at line (cursor s)) then [unat (cursor s), unat (cursor s + 1)]
      else [unat (cursor s)])"
    using q by (intro before_literals_reads_plain) simp
  ultimately have "drop (length (line_reads s)) (line_reads s') =
     (if isspace (line_at line (cursor s)) then [unat (cursor s), unat (cursor s + 1)]
      else [unat (cursor s)]) @
       [unat (column_of line s), unat (column_of line s), unat (column_of line s)]"
    using u(2) by simp
  then show False using m c v by (auto split: if_splits)
qed

section \<open>The claims\<close>

subsection \<open>String literals: the scan stays on the opening quote\<close>

text \<open>
  C1. The specification says that ParseLine runs to the end of every line and returns,
  also when the line contains a double quote. The code does not: the loop of line 168
  starts on the opening quote itself, which is neither alphanumeric nor an underscore, so
  it consumes nothing; \<open>cursor--\<close> and \<open>cursor++\<close> then leave the
  cursor on the quote, and the next iteration is the same. For every line that starts with
  a double quote, and from every state of the lexer, ParseLine does not return.
\<close>

theorem line_starting_with_quote_never_returns:
  "ParseLine (dquote # rest) s = None"
proof -
  have "ParseLine_loop (dquote # rest) (s\<lparr>cursor := 0\<rparr>) = None"
    by (rule loop_stuck_at_quote) (simp_all add: line_at_def isspace_def)
  then show ?thesis by (simp add: ParseLine_def)
qed

text \<open>
  C2. The specification says that the line \<open>"hello"\<close> yields exactly one
  String token with value \<open>hello\<close>. On that line one iteration appends a
  String token whose value is empty and leaves the cursor at 0, and the call never
  returns.
\<close>

theorem quoted_hello_diverges:
  "map_option (\<lambda>s. (cursor s, m_Tokens s))
      (ParseLine_step (dquote # ''hello'' @ [dquote]) (Lexer_new ''a.vs'')) =
     Some (0, [Tok String \<lparr>Filename = ''a.vs'', Column = 0, Row = 0\<rparr> []])
   \<and> ParseLine (dquote # ''hello'' @ [dquote]) (Lexer_new ''a.vs'') = None"
proof
  show "map_option (\<lambda>s. (cursor s, m_Tokens s))
      (ParseLine_step (dquote # ''hello'' @ [dquote]) (Lexer_new ''a.vs'')) =
     Some (0, [Tok String \<lparr>Filename = ''a.vs'', Column = 0, Row = 0\<rparr> []])"
    by (simp add: ParseLine_defs scan_word.simps Lexer_new_def)
  have "ParseLine_loop (dquote # ''hello'' @ [dquote]) ((Lexer_new ''a.vs'')\<lparr>cursor := 0\<rparr>) = None"
    by (rule loop_stuck_at_quote) (simp_all add: line_at_def isspace_def)
  then show "ParseLine (dquote # ''hello'' @ [dquote]) (Lexer_new ''a.vs'') = None"
    by (simp add: ParseLine_def)
qed

text \<open>What \<open>Expected\<close> writes when it is called, at row 0 and column 6 of \<open>a.vs\<close>.\<close>

lemma Expected_format:
  "cout (Expected String ''unterminated string literal''
           \<lparr>Filename = ''a.vs'', Column = 6, Row = 0\<rparr> (Lexer_new ''a.vs'')) =
     ''a.vs:1:7, Expected String, unterminated string literal''"
  by (simp add: Expected_def show_Position_def show_nat.simps Lexer_new_def)

text \<open>
  C3. The specification says that on a line that ends before the closing quote, the
  diagnostic \<open>Filename:Row:Column, Expected String, unterminated string
  literal\<close> is written, scanning goes on and a token with the partial lexeme is
  appended. On the line \<open>"hello\<close> one iteration writes nothing to the output
  (the test of line 171 reads the opening quote), appends a String token with an empty
  value and leaves the cursor at 0; the call never returns.
\<close>

theorem unterminated_string_no_diagnostic:
  "map_option (\<lambda>s. (cout s, cursor s, m_Tokens s))
      (ParseLine_step (dquote # ''hello'') (Lexer_new ''a.vs'')) =
     Some ([], 0, [Tok String \<lparr>Filename = ''a.vs'', Column = 0, Row = 0\<rparr> []])
   \<and> ParseLine (dquote # ''hello'') (Lexer_new ''a.vs'') = None"
proof
  show "map_option (\<lambda>s. (cout s, cursor s, m_Tokens s))
      (ParseLine_step (dquote # ''hello'') (Lexer_new ''a.vs'')) =
     Some ([], 0, [Tok String \<lparr>Filename = ''a.vs'', Column = 0, Row = 0\<rparr> []])"
    by (simp add: ParseLine_defs scan_word.simps Lexer_new_def)
  have "ParseLine_loop (dquote # ''hello'') ((Lexer_new ''a.vs'')\<lparr>cursor := 0\<rparr>) = None"
    by (rule loop_stuck_at_quote) (simp_all add: line_at_def isspace_def)
  then show "ParseLine (dquote # ''hello'') (Lexer_new ''a.vs'') = None"
    by (simp add: ParseLine_def)
qed

subsection \<open>Characters that start no lexeme, and white space\<close>

text \<open>
  C4. The specification says that a character that matches no rule and is not white space,
  such as \<open>@\<close>, is skipped: no token, no error. The \<open>push_back\<close> of line 207 is
  unconditional, so the line \<open>@\<close> appends one token, of type None.
\<close>

theorem unclassified_character_counterexample:
  "map_option m_Tokens (ParseLine ''@'' (Lexer_new ''a.vs'')) =
      Some [Tok None_tok \<lparr>Filename = ''a.vs'', Column = 0, Row = 0\<rparr> []]
   \<and> map_option m_Tokens (ParseLine ''@'' (Lexer_new ''a.vs'')) \<noteq> Some []"
  by (simp add: ParseLine_defs ParseLine_loop.simps Lexer_new_def)

text \<open>
  C4, as the code has it. For a character of the line that starts no lexeme and is not
  white space, the iteration that reaches it writes no diagnostic and appends exactly one
  token for it: type None, empty value, the position of the character; the cursor ends one
  past the character. An iteration reaches a character in two ways, and both are covered:
  the cursor is on it when the iteration starts, or the cursor is on a white-space
  character right before it, which the iteration steps over.
\<close>

theorem unclassified_character_token:
  "(unat (cursor s) < length line \<and>
      no_rule (line ! unat (cursor s)) \<and> \<not> isspace (line ! unat (cursor s)) \<longrightarrow>
        (\<exists>s'. ParseLine_step line s = Some s' \<and>
           m_Tokens s' = m_Tokens s @
             [Tok None_tok \<lparr>Filename = m_Filename s, Column = cursor s, Row = m_Row s\<rparr> []] \<and>
           cursor s' = cursor s + 1 \<and> cout s' = cout s))
   \<and> (unat (cursor s) < length line \<and> isspace (line ! unat (cursor s)) \<and>
      unat (cursor s + 1) < length line \<and>
      no_rule (line ! unat (cursor s + 1)) \<and> \<not> isspace (line ! unat (cursor s + 1)) \<longrightarrow>
        (\<exists>s'. ParseLine_step line s = Some s' \<and>
           m_Tokens s' = m_Tokens s @
             [Tok None_tok \<lparr>Filename = m_Filename s, Column = cursor s + 1, Row = m_Row s\<rparr> []] \<and>
           cursor s' = cursor s + 2 \<and> cout s' = cout s))"
proof (intro conjI impI)
  assume a: "unat (cursor s) < length line \<and>
      no_rule (line ! unat (cursor s)) \<and> \<not> isspace (line ! unat (cursor s))"
  then have "line_at line (cursor s) = line ! unat (cursor s)" by (simp add: line_at_def)
  then have "no_rule (line_at line (column_of line s))" "column_of line s = cursor s"
    using a by simp_all
  then show "\<exists>s'. ParseLine_step line s = Some s' \<and>
           m_Tokens s' = m_Tokens s @
             [Tok None_tok \<lparr>Filename = m_Filename s, Column = cursor s, Row = m_Row s\<rparr> []] \<and>
           cursor s' = cursor s + 1 \<and> cout s' = cout s"
    using step_no_rule [of line s] by auto
next
  assume a: "unat (cursor s) < length line \<and> isspace (line ! unat (cursor s)) \<and>
      unat (cursor s + 1) < length line \<and>
      no_rule (line ! unat (cursor s + 1)) \<and> \<not> isspace (line ! unat (cursor s + 1))"
  then have "line_at line (cursor s) = line ! unat (cursor s)"
    "line_at line (cursor s + 1) = line ! unat (cursor s + 1)"
    by (simp_all add: line_at_def)
  then have "no_rule (line_at line (column_of line s))" "column_of line s = cursor s + 1"
    using a by simp_all
  then show "\<exists>s'. ParseLine_step line s = Some s' \<and>
           m_Tokens s' = m_Tokens s @
             [Tok None_tok \<lparr>Filename = m_Filename s, Column = cursor s + 1, Row = m_Row s\<rparr> []] \<and>
           cursor s' = cursor s + 2 \<and> cout s' = cout s"
    using step_no_rule [of line s] by auto
qed

theorem unclassified_character_token_witness:
  "unat (cursor (Lexer_new ''a.vs'')) < length ''@'' \<and>
   no_rule (''@'' ! unat (cursor (Lexer_new ''a.vs''))) \<and>
   \<not> isspace (''@'' ! unat (cursor (Lexer_new ''a.vs''))) \<and>
   (\<exists>s'. ParseLine_step ''@'' (Lexer_new ''a.vs'') = Some s' \<and>
     m_Tokens s' = [Tok None_tok \<lparr>Filename = ''a.vs'', Column = 0, Row = 0\<rparr> []] \<and>
     cursor s' = 1 \<and> cout s' = []) \<and>
   unat (cursor (Lexer_new ''a.vs'')) < length '' @'' \<and>
   isspace ('' @'' ! unat (cursor (Lexer_new ''a.vs''))) \<and>
   unat (cursor (Lexer_new ''a.vs'') + 1) < length '' @'' \<and>
   no_rule ('' @'' ! unat (cursor (Lexer_new ''a.vs'') + 1)) \<and>
   \<not> isspace ('' @'' ! unat (cursor (Lexer_new ''a.vs'') + 1)) \<and>
   (\<exists>s'. ParseLine_step '' @'' (Lexer_new ''a.vs'') = Some s' \<and>
     m_Tokens s' = [Tok None_tok \<lparr>Filename = ''a.vs'', Column = 1, Row = 0\<rparr> []] \<and>
     cursor s' = 2 \<and> cout s' = [])"
proof -
  let ?s = "Lexer_new ''a.vs''"
  have h1: "unat (cursor ?s) < length ''@'' \<and>
      no_rule (''@'' ! unat (cursor ?s)) \<and> \<not> isspace (''@'' ! unat (cursor ?s))"
    by (simp add: Lexer_new_def no_rule_def isspace_def isdigit_def isalnum_def)
  have h2: "unat (cursor ?s) < length '' @'' \<and> isspace ('' @'' ! unat (cursor ?s)) \<and>
      unat (cursor ?s + 1) < length '' @'' \<and>
      no_rule ('' @'' ! unat (cursor ?s + 1)) \<and> \<not> isspace ('' @'' ! unat (cursor ?s + 1))"
    by (simp add: Lexer_new_def no_rule_def isspace_def isdigit_def isalnum_def)
  from unclassified_character_token [of ?s "''@''"] h1
  have r1: "\<exists>s'. ParseLine_step ''@'' ?s = Some s' \<and>
           m_Tokens s' = m_Tokens ?s @
             [Tok None_tok \<lparr>Filename = m_Filename ?s, Column = cursor ?s, Row = m_Row ?s\<rparr> []] \<and>
           cursor s' = cursor ?s + 1 \<and> cout s' = cout ?s"
    by blast
  from unclassified_character_token [of ?s "'' @''"] h2
  have r2: "\<exists>s'. ParseLine_step '' @'' ?s = Some s' \<and>
           m_Tokens s' = m_Tokens ?s @
             [Tok None_tok \<lparr>Filename = m_Filename ?s, Column = cursor ?s + 1, Row = m_Row ?s\<rparr> []] \<and>
           cursor s' = cursor ?s + 2 \<and> cout s' = cout ?s"
    by blast
  have e: "m_Tokens ?s = []" "m_Filename ?s = ''a.vs''" "m_Row ?s = 0" "cursor ?s = 0"
    "cout ?s = []"
    by (simp_all add: Lexer_new_def)
  show ?thesis using h1 h2 r1 r2 unfolding e by simp
qed

text \<open>
  C5. The specification says that a \<open>-\<close> that is not followed by
  \<open>>\<close> gives a Minus token and the cursor advances by one, so that the next
  character starts the next lexeme. Line 146 has moved the cursor to the next character
  already and nothing moves it back before line 208: on the line \<open>-a\<close> the
  first iteration leaves the cursor at 2, the only token is Minus, and the
  \<open>a\<close> is never classified.
\<close>

theorem minus_swallows_next_character:
  "map_option m_Tokens (ParseLine ''-a'' (Lexer_new ''a.vs'')) =
     Some [Tok Minus \<lparr>Filename = ''a.vs'', Column = 0, Row = 0\<rparr> ''-'']
   \<and> map_option cursor (ParseLine_step ''-a'' (Lexer_new ''a.vs'')) = Some 2"
  by (simp add: ParseLine_defs ParseLine_loop.simps Lexer_new_def)

text \<open>
  C6. The specification says that no token is ever appended for white space, and that a
  line of white space appends no token. The line that consists of one space appends a
  token of type None, at column 1. On a line of \<open>2^32 - 1\<close> spaces the cursor, which
  advances by two, wraps from \<open>2^32 - 2\<close> to 0 and the call never returns.
\<close>

theorem blank_line_counterexample:
  "map_option m_Tokens (ParseLine '' '' (Lexer_new ''a.vs'')) =
      Some [Tok None_tok \<lparr>Filename = ''a.vs'', Column = 1, Row = 0\<rparr> []]
   \<and> map_option (length \<circ> m_Tokens) (ParseLine '' '' (Lexer_new ''a.vs'')) \<noteq> Some 0
   \<and> ParseLine (replicate (2 ^ 32 - 1) CHR '' '') (Lexer_new ''a.vs'') = None"
proof (intro conjI)
  show "map_option m_Tokens (ParseLine '' '' (Lexer_new ''a.vs'')) =
      Some [Tok None_tok \<lparr>Filename = ''a.vs'', Column = 1, Row = 0\<rparr> []]"
    by (simp add: ParseLine_defs ParseLine_loop.simps Lexer_new_def)
  then show "map_option (length \<circ> m_Tokens) (ParseLine '' '' (Lexer_new ''a.vs'')) \<noteq> Some 0"
    by auto
  have "ParseLine_loop (replicate (2 ^ 32 - 1) CHR '' '') ((Lexer_new ''a.vs'')\<lparr>cursor := 0\<rparr>) = None"
    by (rule loop_blank_wraps) (simp_all add: isspace_def)
  then show "ParseLine (replicate (2 ^ 32 - 1) CHR '' '') (Lexer_new ''a.vs'') = None"
    by (simp add: ParseLine_def)
qed

text \<open>
  C6, as the code has it. When the cursor is on a white-space character of the line, the
  iteration steps over exactly that character and classifies the next one. If the next
  character is not white space, the iteration is, apart from the history of reads, the
  iteration that starts on the next character: same token appended, same final cursor,
  same output. If the next character is white space again, or the line ends there, the
  token appended has type None and an empty value, stands at the next column, and the
  cursor ends two further. A line of \<open>n\<close> white-space characters with \<open>n + 1 < 2^32\<close>
  appends \<open>(n + 1) div 2\<close> tokens, all of type None with an empty value.
\<close>

theorem whitespace_step_and_blank_line:
  "(unat (cursor s) < length line \<and> isspace (line ! unat (cursor s)) \<and>
      \<not> isspace (line_at line (cursor s + 1)) \<longrightarrow>
        map_option without_reads (ParseLine_step line s) =
        map_option without_reads (ParseLine_step line (s\<lparr>cursor := cursor s + 1\<rparr>)))
   \<and> (unat (cursor s) < length line \<and> isspace (line ! unat (cursor s)) \<and>
       (isspace (line_at line (cursor s + 1)) \<or> line_at line (cursor s + 1) = CHR 0x00) \<longrightarrow>
        (\<exists>u. ParseLine_step line s = Some u \<and>
           m_Tokens u = m_Tokens s @
             [Tok None_tok \<lparr>Filename = m_Filename s, Column = cursor s + 1, Row = m_Row s\<rparr> []] \<and>
           cursor u = cursor s + 2))
   \<and> ((\<forall>c\<in>set line. isspace c) \<and> length line + 1 < 2 ^ 32 \<longrightarrow>
        map_option (map (\<lambda>t. (Type t, Value t)) \<circ> m_Tokens) (ParseLine line s) =
          Some (map (\<lambda>t. (Type t, Value t)) (m_Tokens s) @
                replicate ((length line + 1) div 2) (None_tok, [])))"
proof (intro conjI impI)
  assume a: "unat (cursor s) < length line \<and> isspace (line ! unat (cursor s)) \<and>
      \<not> isspace (line_at line (cursor s + 1))"
  then have "isspace (line_at line (cursor s))" by (simp add: line_at_def)
  then show "map_option without_reads (ParseLine_step line s) =
        map_option without_reads (ParseLine_step line (s\<lparr>cursor := cursor s + 1\<rparr>))"
    using a by (intro step_over_space) simp_all
next
  assume a: "unat (cursor s) < length line \<and> isspace (line ! unat (cursor s)) \<and>
       (isspace (line_at line (cursor s + 1)) \<or> line_at line (cursor s + 1) = CHR 0x00)"
  then have sp: "isspace (line_at line (cursor s))" by (simp add: line_at_def)
  have "no_rule (line_at line (cursor s + 1))"
    using a isspace_no_rule null_no_rule by auto
  then have "no_rule (line_at line (column_of line s))" using sp by simp
  from step_no_rule [OF this] sp
  show "\<exists>u. ParseLine_step line s = Some u \<and>
           m_Tokens u = m_Tokens s @
             [Tok None_tok \<lparr>Filename = m_Filename s, Column = cursor s + 1, Row = m_Row s\<rparr> []] \<and>
           cursor u = cursor s + 2"
    by auto
next
  assume a: "(\<forall>c\<in>set line. isspace c) \<and> length line + 1 < 2 ^ 32"
  then obtain u where u: "ParseLine_loop line (s\<lparr>cursor := 0\<rparr>) = Some u"
    "map (\<lambda>t. (Type t, Value t)) (m_Tokens u) =
        map (\<lambda>t. (Type t, Value t)) (m_Tokens s) @
          replicate ((length line + 1) div 2) (None_tok, [])"
    using loop_all_space [of line "s\<lparr>cursor := 0\<rparr>"] by auto
  then show "map_option (map (\<lambda>t. (Type t, Value t)) \<circ> m_Tokens) (ParseLine line s) =
          Some (map (\<lambda>t. (Type t, Value t)) (m_Tokens s) @
                replicate ((length line + 1) div 2) (None_tok, []))"
    by (simp add: ParseLine_def)
qed

theorem whitespace_step_and_blank_line_witness:
  "unat (cursor (Lexer_new ''a.vs'')) < length '' {'' \<and>
   isspace ('' {'' ! unat (cursor (Lexer_new ''a.vs''))) \<and>
   \<not> isspace (line_at '' {'' (cursor (Lexer_new ''a.vs'') + 1)) \<and>
   map_option m_Tokens (ParseLine_step '' {'' (Lexer_new ''a.vs'')) =
     Some [Tok OCurly \<lparr>Filename = ''a.vs'', Column = 1, Row = 0\<rparr> ''{''] \<and>
   map_option cursor (ParseLine_step '' {'' (Lexer_new ''a.vs'')) = Some 2 \<and>
   unat (cursor (Lexer_new ''a.vs'')) < length ''   '' \<and>
   isspace (''   '' ! unat (cursor (Lexer_new ''a.vs''))) \<and>
   isspace (line_at ''   '' (cursor (Lexer_new ''a.vs'') + 1)) \<and>
   (\<exists>u. ParseLine_step ''   '' (Lexer_new ''a.vs'') = Some u \<and>
      m_Tokens u = [Tok None_tok \<lparr>Filename = ''a.vs'', Column = 1, Row = 0\<rparr> []] \<and>
      cursor u = 2) \<and>
   list_all isspace ''   '' \<and> length ''   '' + 1 < (2::nat) ^ 32 \<and>
   map_option (map (\<lambda>t. (Type t, Value t)) \<circ> m_Tokens) (ParseLine ''   '' (Lexer_new ''a.vs'')) =
     Some [(None_tok, []), (None_tok, [])]"
proof -
  let ?s = "Lexer_new ''a.vs''"
  have e: "m_Tokens ?s = []" "m_Filename ?s = ''a.vs''" "m_Row ?s = 0" "cursor ?s = 0"
    by (simp_all add: Lexer_new_def)
  have h1: "unat (cursor ?s) < length '' {'' \<and> isspace ('' {'' ! unat (cursor ?s)) \<and>
      \<not> isspace (line_at '' {'' (cursor ?s + 1))"
    by (simp add: Lexer_new_def isspace_def line_at_def)
  have h2: "unat (cursor ?s) < length ''   '' \<and> isspace (''   '' ! unat (cursor ?s)) \<and>
      (isspace (line_at ''   '' (cursor ?s + 1)) \<or> line_at ''   '' (cursor ?s + 1) = CHR 0x00)"
    by (simp add: Lexer_new_def isspace_def line_at_def)
  have h2': "isspace (line_at ''   '' (cursor ?s + 1))"
    by (simp add: Lexer_new_def isspace_def line_at_def)
  have h3: "(\<forall>c\<in>set ''   ''. isspace c) \<and> length ''   '' + 1 < (2::nat) ^ 32"
    by (simp add: isspace_def)
  have next_step: "map_option without_reads (ParseLine_step '' {'' (?s\<lparr>cursor := cursor ?s + 1\<rparr>)) =
      Some (without_reads ((?s\<lparr>cursor := 2, pos := \<lparr>Filename = ''a.vs'', Column = 1, Row = 0\<rparr>,
         first := CHR ''{'', start := 0,
         token := Tok OCurly \<lparr>Filename = ''a.vs'', Column = 1, Row = 0\<rparr> ''{'',
         m_Tokens := [Tok OCurly \<lparr>Filename = ''a.vs'', Column = 1, Row = 0\<rparr> ''{'']\<rparr>)))"
    by (simp add: ParseLine_defs Lexer_new_def without_reads_def)
  from whitespace_step_and_blank_line [of ?s "'' {''"] h1
  have "map_option without_reads (ParseLine_step '' {'' ?s) =
        map_option without_reads (ParseLine_step '' {'' (?s\<lparr>cursor := cursor ?s + 1\<rparr>))"
    by blast
  then obtain v where v: "ParseLine_step '' {'' ?s = Some v"
    "without_reads v = without_reads ((?s\<lparr>cursor := 2, pos := \<lparr>Filename = ''a.vs'', Column = 1, Row = 0\<rparr>,
         first := CHR ''{'', start := 0,
         token := Tok OCurly \<lparr>Filename = ''a.vs'', Column = 1, Row = 0\<rparr> ''{'',
         m_Tokens := [Tok OCurly \<lparr>Filename = ''a.vs'', Column = 1, Row = 0\<rparr> ''{'']\<rparr>))"
    unfolding next_step by auto
  have r1: "map_option m_Tokens (ParseLine_step '' {'' ?s) =
       Some [Tok OCurly \<lparr>Filename = ''a.vs'', Column = 1, Row = 0\<rparr> ''{'']"
    "map_option cursor (ParseLine_step '' {'' ?s) = Some 2"
    using v by (simp_all add: without_reads_eq_iff)
  from whitespace_step_and_blank_line [of ?s "''   ''"] h2
  have r2: "\<exists>u. ParseLine_step ''   '' ?s = Some u \<and>
           m_Tokens u = m_Tokens ?s @
             [Tok None_tok \<lparr>Filename = m_Filename ?s, Column = cursor ?s + 1, Row = m_Row ?s\<rparr> []] \<and>
           cursor u = cursor ?s + 2"
    by blast
  from whitespace_step_and_blank_line [of ?s "''   ''"] h3
  have r3: "map_option (map (\<lambda>t. (Type t, Value t)) \<circ> m_Tokens) (ParseLine ''   '' ?s) =
          Some (map (\<lambda>t. (Type t, Value t)) (m_Tokens ?s) @
                replicate ((length ''   '' + 1) div 2) (None_tok, []))"
    by blast
  have d: "(length ''   '' + 1) div 2 = Suc (Suc 0)" by simp
  have r3': "map_option (map (\<lambda>t. (Type t, Value t)) \<circ> m_Tokens) (ParseLine ''   '' ?s) =
     Some [(None_tok, []), (None_tok, [])]"
    using r3 unfolding d e by simp
  have r2': "\<exists>u. ParseLine_step ''   '' ?s = Some u \<and>
      m_Tokens u = [Tok None_tok \<lparr>Filename = ''a.vs'', Column = 1, Row = 0\<rparr> []] \<and>
      cursor u = 2"
    using r2 unfolding e by simp
  have h3': "list_all isspace ''   ''" "length ''   '' + 1 < (2::nat) ^ 32"
    using h3 by (simp_all add: list_all_iff)
  show ?thesis using h1 h2 h2' h3' r1 r2' r3' by blast
qed

subsection \<open>Positions, rows and the growth of the token sequence\<close>

text \<open>
  C7. The specification says that the column of every token's position is a valid index
  into the line, strictly less than its length. On the line \<open>x\<close> followed by one space,
  of length 2, the second token (type None, appended after the space was stepped over) has
  column 2.
\<close>

theorem token_position_counterexample:
  "map_option (map (\<lambda>t. unat (Column (Pos t))) \<circ> m_Tokens) (ParseLine ''x '' (Lexer_new ''a.vs''))
     = Some [0, 2]
   \<and> \<not> (2 < length ''x '')"
  by (simp add: ParseLine_defs ParseLine_loop.simps scan_word.simps Lexer_new_def)

text \<open>
  C7, as the code has it. Every iteration that returns appends one token whose position
  holds the file name and the row counter of the lexer and a column that is a valid index
  into the line, with one exception: after a white-space character that ends the line the
  column equals the length of the line, and the token is a None token with an empty value.
  At every moment of a run of \<open>main\<close>, that is, when the first \<open>k\<close> lines of the file
  have gone through a new lexer and the loop has made any number \<open>n\<close> of iterations on
  line \<open>k\<close>, every token of the sequence carries the file name, a row that is a valid
  index into the file, and a column as above for the line of that row; the same holds when
  the whole file has been scanned. A position is printed as the file name, a colon, a
  decimal numeral whose value is the row plus one, a colon, and a decimal numeral whose
  value is the column plus one, both sums as the \<open>uint32_t\<close> fields compute them.
\<close>

theorem token_positions:
  "(unat (cursor s) < length line \<and> ParseLine_step line s = Some s' \<longrightarrow>
      m_Tokens s' = m_Tokens s @ [token s'] \<and> m_Filename s' = m_Filename s \<and>
      m_Row s' = m_Row s \<and> Filename (Pos (token s')) = m_Filename s \<and>
      Row (Pos (token s')) = m_Row s \<and> position_in_line line (token s'))
   \<and> (k < length lines \<and> ParseLines (take k lines) (Lexer_new filename) = Some s0 \<and>
       ParseLine_iterations n (lines ! k) (s0\<lparr>cursor := 0\<rparr>) = Some s1 \<and>
       t \<in> set (m_Tokens s1) \<longrightarrow>
      Filename (Pos t) = filename \<and> unat (Row (Pos t)) < length lines \<and>
      (\<exists>j<length lines. Row (Pos t) = of_nat j \<and> position_in_line (lines ! j) t))
   \<and> (ParseLines lines (Lexer_new filename) = Some s'' \<and> t \<in> set (m_Tokens s'') \<longrightarrow>
      Filename (Pos t) = filename \<and> unat (Row (Pos t)) < length lines \<and>
      (\<exists>j<length lines. Row (Pos t) = of_nat j \<and> position_in_line (lines ! j) t))
   \<and> (\<exists>r c. show_Position p = Filename p @ '':'' @ r @ '':'' @ c \<and>
          decimal_value r = unat (Row p + 1) \<and> decimal_value c = unat (Column p + 1) \<and>
          r \<noteq> [] \<and> c \<noteq> [] \<and> set r \<subseteq> set ''0123456789'' \<and> set c \<subseteq> set ''0123456789'')"
proof (intro conjI impI)
  assume a: "unat (cursor s) < length line \<and> ParseLine_step line s = Some s'"
  then have st: "ParseLine_step line s = Some s'" and c: "unat (cursor s) < length line"
    by simp_all
  from step_partial [OF st] step_position [OF c st]
  show "m_Tokens s' = m_Tokens s @ [token s']" and "m_Filename s' = m_Filename s"
    and "m_Row s' = m_Row s" and "Filename (Pos (token s')) = m_Filename s"
    and "Row (Pos (token s')) = m_Row s" and "position_in_line line (token s')"
    by simp_all
next
  assume a: "k < length lines \<and> ParseLines (take k lines) (Lexer_new filename) = Some s0 \<and>
       ParseLine_iterations n (lines ! k) (s0\<lparr>cursor := 0\<rparr>) = Some s1 \<and>
       t \<in> set (m_Tokens s1)"
  then have "Filename (Pos t) = filename \<and>
     (\<exists>j<length lines. Row (Pos t) = of_nat j \<and> position_in_line (lines ! j) t)"
    by (intro tokens_during_scan [of k lines filename s0 n s1 t]) simp_all
  then show f: "Filename (Pos t) = filename"
    and e: "\<exists>j<length lines. Row (Pos t) = of_nat j \<and> position_in_line (lines ! j) t"
    by simp_all
  from e obtain j where "j < length lines" "Row (Pos t) = of_nat j" by blast
  then show "unat (Row (Pos t)) < length lines" by (simp add: unat_of_nat_index)
next
  assume a: "ParseLines lines (Lexer_new filename) = Some s'' \<and> t \<in> set (m_Tokens s'')"
  then have "ParseLines lines (Lexer_new filename) = Some s''" by simp
  from ParseLines_tokens [OF this] a
  have f: "Filename (Pos t) = filename"
    and e: "\<exists>j<length lines. Row (Pos t) = of_nat j \<and> position_in_line (lines ! j) t"
    by (auto simp: Lexer_new_def)
  show "Filename (Pos t) = filename" by (rule f)
  show "\<exists>j<length lines. Row (Pos t) = of_nat j \<and> position_in_line (lines ! j) t" by (rule e)
  from e obtain j where "j < length lines" "Row (Pos t) = of_nat j" by blast
  then show "unat (Row (Pos t)) < length lines" by (simp add: unat_of_nat_index)
next
  have "show_Position p = Filename p @ '':'' @ show_nat (unat (Row p + 1)) @ '':'' @
      show_nat (unat (Column p + 1))"
    by (simp add: show_Position_def)
  then show "\<exists>r c. show_Position p = Filename p @ '':'' @ r @ '':'' @ c \<and>
          decimal_value r = unat (Row p + 1) \<and> decimal_value c = unat (Column p + 1) \<and>
          r \<noteq> [] \<and> c \<noteq> [] \<and> set r \<subseteq> set ''0123456789'' \<and> set c \<subseteq> set ''0123456789''"
    using decimal_value_show_nat show_nat_digits by blast
qed

theorem token_positions_witness:
  "\<exists>s' s0 s1 s''.
     unat (cursor ((Lexer_new ''a.vs'')\<lparr>cursor := 1\<rparr>)) < length ''x '' \<and>
     ParseLine_step ''x '' ((Lexer_new ''a.vs'')\<lparr>cursor := 1\<rparr>) = Some s' \<and>
     position_in_line ''x '' (token s') \<and> unat (Column (Pos (token s'))) = length ''x '' \<and>
     (1::nat) < length [''x '', dquote # ''hello''] \<and>
     ParseLines (take 1 [''x '', dquote # ''hello'']) (Lexer_new ''a.vs'') = Some s0 \<and>
     ParseLine_iterations (Suc (Suc 0)) ([''x '', dquote # ''hello''] ! 1) (s0\<lparr>cursor := 0\<rparr>) = Some s1 \<and>
     map (\<lambda>t. (Type t, unat (Row (Pos t)), unat (Column (Pos t)))) (m_Tokens s1) =
       [(Ident, 0, 0), (None_tok, 0, 2), (String, 1, 0), (String, 1, 0)] \<and>
     m_Tokens s1 ! 1 \<in> set (m_Tokens s1) \<and>
     unat (Row (Pos (m_Tokens s1 ! 1))) < length [''x '', dquote # ''hello''] \<and>
     (\<exists>j<length [''x '', dquote # ''hello'']. Row (Pos (m_Tokens s1 ! 1)) = of_nat j \<and>
         position_in_line ([''x '', dquote # ''hello''] ! j) (m_Tokens s1 ! 1)) \<and>
     ParseLines [''x '', ''fn''] (Lexer_new ''a.vs'') = Some s'' \<and>
     m_Tokens s'' ! 1 \<in> set (m_Tokens s'') \<and>
     unat (Row (Pos (m_Tokens s'' ! 1))) < length [''x '', ''fn''] \<and>
     (\<exists>j<length [''x '', ''fn'']. Row (Pos (m_Tokens s'' ! 1)) = of_nat j \<and>
         position_in_line ([''x '', ''fn''] ! j) (m_Tokens s'' ! 1)) \<and>
     show_Position (Pos (m_Tokens s'' ! 1)) = ''a.vs:1:3''"
proof -
  let ?L = "Lexer_new ''a.vs''" and ?ls = "[''x '', ''fn'']"
  let ?ld = "[''x '', dquote # ''hello'']"
  obtain s' where s': "ParseLine_step ''x '' (?L\<lparr>cursor := 1\<rparr>) = Some s'"
    and col: "unat (Column (Pos (token s'))) = length ''x ''"
    by (simp add: ParseLine_defs Lexer_new_def)
  have c: "unat (cursor (?L\<lparr>cursor := 1\<rparr>)) < length ''x ''" by simp
  obtain s0 where s0: "ParseLines (take 1 ?ld) ?L = Some s0"
    and s0v: "s0\<lparr>cursor := 0\<rparr> = s0\<lparr>cursor := 0\<rparr>"
    and s0t: "map (\<lambda>t. (Type t, unat (Row (Pos t)), unat (Column (Pos t)))) (m_Tokens s0) =
       [(Ident, 0, 0), (None_tok, 0, 2)]"
    and s0r: "m_Row s0 = 1" "m_Filename s0 = ''a.vs''"
    by (simp add: ParseLine_defs ParseLine_loop.simps scan_word.simps Lexer_new_def)
  obtain s1 where s1: "ParseLine_iterations (Suc (Suc 0)) (?ld ! 1) (s0\<lparr>cursor := 0\<rparr>) = Some s1"
    and s1t: "map (\<lambda>t. (Type t, unat (Row (Pos t)), unat (Column (Pos t)))) (m_Tokens s1) =
       [(Ident, 0, 0), (None_tok, 0, 2), (String, 1, 0), (String, 1, 0)]"
    using s0t s0r by (simp add: ParseLine_defs scan_word.simps)
  have "length (map (\<lambda>t. (Type t, unat (Row (Pos t)), unat (Column (Pos t)))) (m_Tokens s1)) = 4"
    unfolding s1t by simp
  then have len1: "length (m_Tokens s1) = 4" by simp
  have mem1: "m_Tokens s1 ! 1 \<in> set (m_Tokens s1)" using len1 by simp
  obtain s'' where s'': "ParseLines ?ls ?L = Some s''"
    and toks: "map Pos (m_Tokens s'') =
      [\<lparr>Filename = ''a.vs'', Column = 0, Row = 0\<rparr>, \<lparr>Filename = ''a.vs'', Column = 2, Row = 0\<rparr>,
       \<lparr>Filename = ''a.vs'', Column = 0, Row = 1\<rparr>]"
    by (simp add: ParseLine_defs ParseLine_loop.simps scan_word.simps Lexer_new_def)
  have "length (map Pos (m_Tokens s'')) = 3" unfolding toks by simp
  then have len: "length (m_Tokens s'') = 3" by simp
  have "map Pos (m_Tokens s'') ! 1 = \<lparr>Filename = ''a.vs'', Column = 2, Row = 0\<rparr>"
    unfolding toks by simp
  then have p1: "Pos (m_Tokens s'' ! 1) = \<lparr>Filename = ''a.vs'', Column = 2, Row = 0\<rparr>"
    using len by simp
  have mem: "m_Tokens s'' ! 1 \<in> set (m_Tokens s'')" using len by simp
  have k: "(1::nat) < length ?ld" by simp
  from token_positions [where s = "?L\<lparr>cursor := 1\<rparr>" and line = "''x ''" and s' = s'] c s'
  have a: "position_in_line ''x '' (token s')" by blast
  from token_positions [where k = 1 and lines = ?ld and filename = "''a.vs''" and ?s0.0 = s0
      and n = "Suc (Suc 0)" and ?s1.0 = s1 and t = "m_Tokens s1 ! 1"] k s0 s1 mem1
  have b: "unat (Row (Pos (m_Tokens s1 ! 1))) < length ?ld"
    "\<exists>j<length ?ld. Row (Pos (m_Tokens s1 ! 1)) = of_nat j \<and>
         position_in_line (?ld ! j) (m_Tokens s1 ! 1)"
    by blast+
  from token_positions [where lines = ?ls and filename = "''a.vs''" and s'' = s''
      and t = "m_Tokens s'' ! 1"] s'' mem
  have d: "unat (Row (Pos (m_Tokens s'' ! 1))) < length ?ls"
    "\<exists>j<length ?ls. Row (Pos (m_Tokens s'' ! 1)) = of_nat j \<and>
         position_in_line (?ls ! j) (m_Tokens s'' ! 1)"
    by blast+
  have sp: "show_Position (Pos (m_Tokens s'' ! 1)) = ''a.vs:1:3''"
    unfolding p1 by (simp add: show_Position_def show_nat.simps)
  show ?thesis
    using c s' a col k s0 s1 s1t mem1 b s'' mem d sp
    by (intro exI [of _ s'] exI [of _ s0] exI [of _ s1] exI [of _ s'']) simp
qed

text \<open>
  C8. Every call of ParseLine that returns has increased the row counter by exactly one
  (in \<open>uint32_t\<close> arithmetic, as \<open>m_Row++\<close> computes it), whatever
  the number of tokens of the line, and the old token sequence is a prefix of the new one:
  tokens are appended only, so the length does not decrease.
\<close>

theorem row_counter_and_token_growth:
  assumes "ParseLine line s = Some s'"
  shows "m_Row s' = m_Row s + 1 \<and> prefix (m_Tokens s) (m_Tokens s') \<and>
         length (m_Tokens s) \<le> length (m_Tokens s')"
  using ParseLine_partial [OF assms] by (auto simp: prefix_def)

theorem row_counter_and_token_growth_witness:
  "\<exists>s'. ParseLine ''fn f'' (Lexer_new ''a.vs'') = Some s' \<and> m_Row s' = 1 \<and>
      length (m_Tokens s') = 2 \<and> prefix [] (m_Tokens s')"
proof -
  obtain s' where s': "ParseLine ''fn f'' (Lexer_new ''a.vs'') = Some s'" "length (m_Tokens s') = 2"
    by (simp add: ParseLine_defs ParseLine_loop.simps scan_word.simps Lexer_new_def)
  from row_counter_and_token_growth [OF s'(1)] s' show ?thesis
    by (simp add: Lexer_new_def)
qed

subsection \<open>Single characters\<close>

text \<open>
  C9. For each of the ten characters \<open>{ } ( ) ; : + * / =\<close>, scanning the line
  that consists of that character alone, from any state of the lexer, appends exactly one
  token: its type is the one of the character (OCurly, CCurly, OParen, CParen, Semicolon,
  Colon, Plus, Multiply, Divide, Equals), its value is the character, and it stands at
  column 0 of the current row.
\<close>

theorem single_character_tokens:
  "map_option m_Tokens (ParseLine ''{'' s) =
     Some (m_Tokens s @ [Tok OCurly \<lparr>Filename = m_Filename s, Column = 0, Row = m_Row s\<rparr> ''{''])
   \<and> map_option m_Tokens (ParseLine ''}'' s) =
     Some (m_Tokens s @ [Tok CCurly \<lparr>Filename = m_Filename s, Column = 0, Row = m_Row s\<rparr> ''}''])
   \<and> map_option m_Tokens (ParseLine ''('' s) =
     Some (m_Tokens s @ [Tok OParen \<lparr>Filename = m_Filename s, Column = 0, Row = m_Row s\<rparr> ''(''])
   \<and> map_option m_Tokens (ParseLine '')'' s) =
     Some (m_Tokens s @ [Tok CParen \<lparr>Filename = m_Filename s, Column = 0, Row = m_Row s\<rparr> '')''])
   \<and> map_option m_Tokens (ParseLine '';'' s) =
     Some (m_Tokens s @ [Tok Semicolon \<lparr>Filename = m_Filename s, Column = 0, Row = m_Row s\<rparr> '';''])
   \<and> map_option m_Tokens (ParseLine '':'' s) =
     Some (m_Tokens s @ [Tok Colon \<lparr>Filename = m_Filename s, Column = 0, Row = m_Row s\<rparr> '':''])
   \<and> map_option m_Tokens (ParseLine ''+'' s) =
     Some (m_Tokens s @ [Tok Plus_tok \<lparr>Filename = m_Filename s, Column = 0, Row = m_Row s\<rparr> ''+''])
   \<and> map_option m_Tokens (ParseLine ''*'' s) =
     Some (m_Tokens s @ [Tok Multiply \<lparr>Filename = m_Filename s, Column = 0, Row = m_Row s\<rparr> ''*''])
   \<and> map_option m_Tokens (ParseLine ''/'' s) =
     Some (m_Tokens s @ [Tok Divide \<lparr>Filename = m_Filename s, Column = 0, Row = m_Row s\<rparr> ''/''])
   \<and> map_option m_Tokens (ParseLine ''='' s) =
     Some (m_Tokens s @ [Tok Equals \<lparr>Filename = m_Filename s, Column = 0, Row = m_Row s\<rparr> ''=''])"
  by (intro conjI; simp add: ParseLine_defs ParseLine_loop.simps)

subsection \<open>Where the line is read\<close>

text \<open>
  C10. The specification says that every read of the line is at an index of at most
  \<open>line.size()\<close>, and that reads at exactly that index occur when a line ends with
  \<open>-\<close> or with white space. On a line of \<open>2^32\<close> characters, \<open>aa\<close>, a space and then
  \<open>a\<close> to the end, the second iteration starts with the cursor at 2, inside the line;
  its identifier loop runs the 32-bit cursor past \<open>2^32 - 1\<close> to 0 and stops at 2, so that
  \<open>cursor - start\<close> is \<open>2^32 - 1\<close> and the copy of line 197 reads index
  \<open>line.size() + 1\<close>. And the line of two spaces ends with white space, yet it is read
  at indices 0 and 1 only.
\<close>

theorem reads_counterexample:
  "map_option (\<lambda>s. unat (cursor s) < length (''aa '' @ replicate (2 ^ 32 - 3) (CHR ''a'')))
      (ParseLine_step (''aa '' @ replicate (2 ^ 32 - 3) (CHR ''a'')) (Lexer_new ''a.vs'')) = Some True
   \<and> map_option (\<lambda>s. length (''aa '' @ replicate (2 ^ 32 - 3) (CHR ''a'')) + 1 \<in> set (line_reads s))
      (ParseLine_step (''aa '' @ replicate (2 ^ 32 - 3) (CHR ''a'')) (Lexer_new ''a.vs'') \<bind>
       ParseLine_step (''aa '' @ replicate (2 ^ 32 - 3) (CHR ''a''))) = Some True
   \<and> map_option line_reads (ParseLine ''  '' (Lexer_new ''a.vs'')) = Some [0, 1]
   \<and> length ''  '' \<notin> set [0, 1 :: nat]"
proof (intro conjI)
  obtain s1 where s1: "ParseLine_step long_line (Lexer_new ''a.vs'') = Some s1" "cursor s1 = 2"
    using long_line_first_step by blast
  obtain s2 where s2: "ParseLine_step long_line s1 = Some s2"
    "length long_line + 1 \<in> set (line_reads s2)"
    using long_line_second_step [OF s1(2)] by blast
  show "map_option (\<lambda>s. unat (cursor s) < length long_line)
      (ParseLine_step long_line (Lexer_new ''a.vs'')) = Some True"
    using s1 long_line_nth(1) by simp
  show "map_option (\<lambda>s. length long_line + 1 \<in> set (line_reads s))
      (ParseLine_step long_line (Lexer_new ''a.vs'') \<bind> ParseLine_step long_line) = Some True"
    using s1(1) s2 by simp
  show "map_option line_reads (ParseLine ''  '' (Lexer_new ''a.vs'')) = Some [0, 1]"
    by (simp add: ParseLine_defs ParseLine_loop.simps Lexer_new_def)
  show "length ''  '' \<notin> set [0, 1 :: nat]" by simp
qed

text \<open>
  C10, as the code has it. For a line of fewer than \<open>2^32\<close> characters, every iteration
  of the loop returns and reads the line at indices that are at most its length, and so
  does every call of ParseLine that returns. Reads at exactly the length occur: when an
  iteration starts on a white-space character that is the last character of the line
  (line 122); when an iteration classifies a \<open>-\<close> that is the last character of the line,
  whether it starts on it or on a white-space character before it (line 148); and in the
  identifier loop, whose last evaluation of \<open>line[cursor] == '_'\<close> is at the length of
  the line whenever the identifier runs to the end of the line.
\<close>

theorem line_reads_within_bounds:
  "(length line < 2 ^ 32 \<and> unat (cursor s) < length line \<longrightarrow>
      (\<exists>s' rs. ParseLine_step line s = Some s' \<and> line_reads s' = line_reads s @ rs \<and>
          (\<forall>i\<in>set rs. i \<le> length line)))
   \<and> (length line < 2 ^ 32 \<and> ParseLine line s = Some s'' \<longrightarrow>
      (\<exists>rs. line_reads s'' = line_reads s @ rs \<and> (\<forall>i\<in>set rs. i \<le> length line)))
   \<and> (length line < 2 ^ 32 \<and> unat (cursor s) + 1 = length line \<and>
       isspace (line ! unat (cursor s)) \<longrightarrow>
      (\<exists>s'. ParseLine_step line s = Some s' \<and>
          line_reads s' = line_reads s @ [unat (cursor s), length line]))
   \<and> (length line < 2 ^ 32 \<and> unat (cursor s) + 1 = length line \<and>
       line ! unat (cursor s) = CHR ''-'' \<longrightarrow>
      (\<exists>s'. ParseLine_step line s = Some s' \<and>
          line_reads s' = line_reads s @ [unat (cursor s), length line]))
   \<and> (length line < 2 ^ 32 \<and> unat (cursor s) + 2 = length line \<and>
       isspace (line ! unat (cursor s)) \<and> line ! (unat (cursor s) + 1) = CHR ''-'' \<longrightarrow>
      (\<exists>s'. ParseLine_step line s = Some s' \<and>
          line_reads s' = line_reads s @ [unat (cursor s), unat (cursor s) + 1, length line]))
   \<and> (length line < 2 ^ 32 \<and> unat (cursor s) \<le> length line \<and>
       (\<forall>i. unat (cursor s) \<le> i \<and> i < length line \<longrightarrow>
          isalnum (line ! i) \<or> line ! i = CHR ''_'') \<longrightarrow>
      (\<exists>rs. scan_word line s =
          Some (s\<lparr>cursor := of_nat (length line),
                  line_reads := line_reads s @ rs @ [length line]\<rparr>)))
   \<and> (length line < 2 ^ 32 \<and> unat (cursor s) < length line \<and>
       isalnum (line ! unat (cursor s)) \<and> \<not> isdigit (line ! unat (cursor s)) \<and>
       (\<forall>i. unat (cursor s) \<le> i \<and> i < length line \<longrightarrow>
          isalnum (line ! i) \<or> line ! i = CHR ''_'') \<longrightarrow>
      (\<exists>s'. ParseLine_step line s = Some s' \<and>
          length line \<in> set (drop (length (line_reads s)) (line_reads s'))))"
proof (intro conjI impI)
  assume "length line < 2 ^ 32 \<and> unat (cursor s) < length line"
  then show "\<exists>s' rs. ParseLine_step line s = Some s' \<and> line_reads s' = line_reads s @ rs \<and>
          (\<forall>i\<in>set rs. i \<le> length line)"
    using step_total [of line s] by blast
next
  assume a: "length line < 2 ^ 32 \<and> ParseLine line s = Some s''"
  then obtain u where u: "ParseLine_loop line (s\<lparr>cursor := 0\<rparr>) = Some u"
    and s'': "s'' = u\<lparr>m_Row := m_Row u + 1\<rparr>"
    by (auto simp: ParseLine_def split: bind_splits)
  from loop_reads [OF u] a s''
  show "\<exists>rs. line_reads s'' = line_reads s @ rs \<and> (\<forall>i\<in>set rs. i \<le> length line)"
    by simp
next
  assume a: "length line < 2 ^ 32 \<and> unat (cursor s) + 1 = length line \<and>
       isspace (line ! unat (cursor s))"
  then have c: "unat (cursor s) < length line" by simp
  then have sp: "isspace (line_at line (cursor s))" using a by (simp add: line_at_def)
  have u: "unat (cursor s + 1) = length line"
    using unat_cursor_Suc [OF c] a by simp
  then have "line_at line (cursor s + 1) = CHR 0x00" by (simp add: line_at_def)
  then have "no_rule (line_at line (column_of line s))" using sp null_no_rule by simp
  from step_no_rule_reads [OF this] sp u
  show "\<exists>s'. ParseLine_step line s = Some s' \<and>
          line_reads s' = line_reads s @ [unat (cursor s), length line]"
    by simp
next
  assume a: "length line < 2 ^ 32 \<and> unat (cursor s) + 1 = length line \<and>
       line ! unat (cursor s) = CHR ''-''"
  then have c: "unat (cursor s) < length line" by simp
  then have la: "line_at line (cursor s) = CHR ''-''" using a by (simp add: line_at_def)
  then have ns: "\<not> isspace (line_at line (cursor s))" by (simp add: isspace_def)
  have u: "unat (cursor s + 1) = length line"
    using unat_cursor_Suc [OF c] a by simp
  then have "line_at line (cursor s + 1) = CHR 0x00" by (simp add: line_at_def)
  then have "line_at line (column_of line s) = CHR ''-''"
    "line_at line (column_of line s + 1) \<noteq> CHR ''>''"
    using la ns by simp_all
  from step_minus_reads [OF this] ns u
  show "\<exists>s'. ParseLine_step line s = Some s' \<and>
          line_reads s' = line_reads s @ [unat (cursor s), length line]"
    by simp
next
  assume a: "length line < 2 ^ 32 \<and> unat (cursor s) + 2 = length line \<and>
       isspace (line ! unat (cursor s)) \<and> line ! (unat (cursor s) + 1) = CHR ''-''"
  then have c: "unat (cursor s) < length line" by simp
  then have sp: "isspace (line_at line (cursor s))" using a by (simp add: line_at_def)
  have u1: "unat (cursor s + 1) = unat (cursor s) + 1"
    using unat_cursor_Suc [OF c] a by simp
  then have c1: "unat (cursor s + 1) < length line" using a by simp
  have u2: "unat (cursor s + 1 + 1) = length line"
    using unat_cursor_Suc [OF c1] a u1 by simp
  have "line_at line (cursor s + 1) = CHR ''-''" using a u1 c1 by (simp add: line_at_def)
  moreover have "line_at line (cursor s + 1 + 1) = CHR 0x00" using u2 by (simp add: line_at_def)
  ultimately have "line_at line (column_of line s) = CHR ''-''"
    "line_at line (column_of line s + 1) \<noteq> CHR ''>''"
    using sp by simp_all
  from step_minus_reads [OF this] sp u1 u2
  show "\<exists>s'. ParseLine_step line s = Some s' \<and>
          line_reads s' = line_reads s @ [unat (cursor s), unat (cursor s) + 1, length line]"
    by simp
next
  assume "length line < 2 ^ 32 \<and> unat (cursor s) \<le> length line \<and>
       (\<forall>i. unat (cursor s) \<le> i \<and> i < length line \<longrightarrow>
          isalnum (line ! i) \<or> line ! i = CHR ''_'')"
  then show "\<exists>rs. scan_word line s =
          Some (s\<lparr>cursor := of_nat (length line),
                  line_reads := line_reads s @ rs @ [length line]\<rparr>)"
    using scan_word_to_end [of line s] by blast
next
  assume "length line < 2 ^ 32 \<and> unat (cursor s) < length line \<and>
       isalnum (line ! unat (cursor s)) \<and> \<not> isdigit (line ! unat (cursor s)) \<and>
       (\<forall>i. unat (cursor s) \<le> i \<and> i < length line \<longrightarrow>
          isalnum (line ! i) \<or> line ! i = CHR ''_'')"
  then show "\<exists>s'. ParseLine_step line s = Some s' \<and>
          length line \<in> set (drop (length (line_reads s)) (line_reads s'))"
    using step_word_to_end [of line s] by blast
qed

theorem line_reads_within_bounds_witness:
  "\<exists>s' s''. length ''fn -> x_1 12'' < (2::nat) ^ 32 \<and>
     unat (cursor (Lexer_new ''a.vs'')) < length ''fn -> x_1 12'' \<and>
     ParseLine_step ''fn -> x_1 12'' (Lexer_new ''a.vs'') = Some s' \<and>
     ParseLine ''fn -> x_1 12'' (Lexer_new ''a.vs'') = Some s'' \<and>
     (\<forall>i\<in>set (line_reads s'). i \<le> length ''fn -> x_1 12'') \<and>
     (\<forall>i\<in>set (line_reads s''). i \<le> length ''fn -> x_1 12'') \<and>
     unat (cursor (Lexer_new ''a.vs'')) + 1 = length '' '' \<and>
     isspace ('' '' ! unat (cursor (Lexer_new ''a.vs''))) \<and>
     map_option line_reads (ParseLine_step '' '' (Lexer_new ''a.vs'')) = Some [0, 1] \<and>
     unat (cursor (Lexer_new ''a.vs'')) + 1 = length ''-'' \<and>
     ''-'' ! unat (cursor (Lexer_new ''a.vs'')) = CHR ''-'' \<and>
     map_option line_reads (ParseLine_step ''-'' (Lexer_new ''a.vs'')) = Some [0, 1] \<and>
     unat (cursor (Lexer_new ''a.vs'')) + 2 = length '' -'' \<and>
     isspace ('' -'' ! unat (cursor (Lexer_new ''a.vs''))) \<and>
     '' -'' ! (unat (cursor (Lexer_new ''a.vs'')) + 1) = CHR ''-'' \<and>
     map_option line_reads (ParseLine_step '' -'' (Lexer_new ''a.vs'')) = Some [0, 1, 2] \<and>
     isalnum (''a_1'' ! unat (cursor (Lexer_new ''a.vs''))) \<and>
     \<not> isdigit (''a_1'' ! unat (cursor (Lexer_new ''a.vs''))) \<and>
     (\<forall>i. unat (cursor (Lexer_new ''a.vs'')) \<le> i \<and> i < length ''a_1'' \<longrightarrow>
          isalnum (''a_1'' ! i) \<or> ''a_1'' ! i = CHR ''_'') \<and>
     (\<exists>rs. scan_word ''a_1'' (Lexer_new ''a.vs'') =
          Some ((Lexer_new ''a.vs'')\<lparr>cursor := 3, line_reads := rs @ [3]\<rparr>)) \<and>
     (\<exists>u. ParseLine_step ''a_1'' (Lexer_new ''a.vs'') = Some u \<and> 3 \<in> set (line_reads u))"
proof -
  let ?l = "''fn -> x_1 12''" and ?s = "Lexer_new ''a.vs''"
  have c0: "cursor ?s = 0" "line_reads ?s = []" by (simp_all add: Lexer_new_def)
  have h: "length ?l < (2::nat) ^ 32" "unat (cursor ?s) < length ?l"
    by (simp_all add: Lexer_new_def)
  obtain s'' where s'': "ParseLine ?l ?s = Some s''"
    by (simp add: ParseLine_defs ParseLine_loop.simps scan_word.simps scan_digits.simps Lexer_new_def)
  note t = line_reads_within_bounds [of ?l ?s s'']
  from t h obtain s' rs where p1: "ParseLine_step ?l ?s = Some s'"
    "line_reads s' = line_reads ?s @ rs" "\<forall>i\<in>set rs. i \<le> length ?l"
    by blast
  from t h s'' obtain rs' where p2:
    "line_reads s'' = line_reads ?s @ rs'" "\<forall>i\<in>set rs'. i \<le> length ?l"
    by blast
  have b1: "\<forall>i\<in>set (line_reads s'). i \<le> length ?l" using p1 c0 by simp
  have b2: "\<forall>i\<in>set (line_reads s''). i \<le> length ?l" using p2 c0 by simp
  have h3: "length '' '' < (2::nat) ^ 32 \<and> unat (cursor ?s) + 1 = length '' '' \<and>
      isspace ('' '' ! unat (cursor ?s))"
    by (simp add: Lexer_new_def isspace_def)
  from line_reads_within_bounds [of "'' ''" ?s] h3
  have "\<exists>s'. ParseLine_step '' '' ?s = Some s' \<and>
          line_reads s' = line_reads ?s @ [unat (cursor ?s), length '' '']"
    by blast
  then have o1: "map_option line_reads (ParseLine_step '' '' ?s) = Some [0, 1]"
    unfolding c0 by auto
  have h4: "length ''-'' < (2::nat) ^ 32 \<and> unat (cursor ?s) + 1 = length ''-'' \<and>
      ''-'' ! unat (cursor ?s) = CHR ''-''"
    by (simp add: Lexer_new_def)
  from line_reads_within_bounds [of "''-''" ?s] h4
  have "\<exists>s'. ParseLine_step ''-'' ?s = Some s' \<and>
          line_reads s' = line_reads ?s @ [unat (cursor ?s), length ''-'']"
    by blast
  then have o2: "map_option line_reads (ParseLine_step ''-'' ?s) = Some [0, 1]"
    unfolding c0 by auto
  have h5: "length '' -'' < (2::nat) ^ 32 \<and> unat (cursor ?s) + 2 = length '' -'' \<and>
      isspace ('' -'' ! unat (cursor ?s)) \<and> '' -'' ! (unat (cursor ?s) + 1) = CHR ''-''"
    by (simp add: Lexer_new_def isspace_def)
  from line_reads_within_bounds [of "'' -''" ?s] h5
  have "\<exists>s'. ParseLine_step '' -'' ?s = Some s' \<and>
          line_reads s' = line_reads ?s @ [unat (cursor ?s), unat (cursor ?s) + 1, length '' -'']"
    by blast
  then have o3: "map_option line_reads (ParseLine_step '' -'' ?s) = Some [0, 1, 2]"
    unfolding c0 by auto
  have run: "\<forall>i. unat (cursor ?s) \<le> i \<and> i < length ''a_1'' \<longrightarrow>
          isalnum (''a_1'' ! i) \<or> ''a_1'' ! i = CHR ''_''"
  proof (intro allI impI)
    fix i assume "unat (cursor ?s) \<le> i \<and> i < length ''a_1''"
    then have "i \<in> {0, 1, 2}" by auto
    then show "isalnum (''a_1'' ! i) \<or> ''a_1'' ! i = CHR ''_''"
      by (auto simp: isalnum_def isdigit_def)
  qed
  have h6: "length ''a_1'' < (2::nat) ^ 32" "unat (cursor ?s) \<le> length ''a_1''"
    "unat (cursor ?s) < length ''a_1''" "isalnum (''a_1'' ! unat (cursor ?s))"
    "\<not> isdigit (''a_1'' ! unat (cursor ?s))"
    by (simp_all add: Lexer_new_def isalnum_def isdigit_def)
  from line_reads_within_bounds [of "''a_1''" ?s] h6 run
  have "\<exists>rs. scan_word ''a_1'' ?s =
          Some (?s\<lparr>cursor := of_nat (length ''a_1''),
                  line_reads := line_reads ?s @ rs @ [length ''a_1'']\<rparr>)"
    by blast
  moreover have "length ''a_1'' = 3" by simp
  ultimately have o4:
    "\<exists>rs. scan_word ''a_1'' ?s = Some (?s\<lparr>cursor := 3, line_reads := rs @ [3]\<rparr>)"
    unfolding c0 by (simp only: append_Nil of_nat_numeral)
  from line_reads_within_bounds [of "''a_1''" ?s] h6 run
  have "\<exists>u. ParseLine_step ''a_1'' ?s = Some u \<and>
          length ''a_1'' \<in> set (drop (length (line_reads ?s)) (line_reads u))"
    by blast
  moreover have "length ''a_1'' = 3" by simp
  ultimately have o5: "\<exists>u. ParseLine_step ''a_1'' ?s = Some u \<and> 3 \<in> set (line_reads u)"
    unfolding c0 by (simp only: list.size drop_0)
  show ?thesis
    using h p1(1) s'' b1 b2 h3 o1 h4 o2 h5 o3 h6(4,5) run o4 o5
    by (intro exI [of _ s'] exI [of _ s'']) simp
qed

end
